theory Spec2Isabelle
  imports Complex_Main "HOL-Library.AList" "HOL-Library.Multiset"
begin

section \<open>Values of the program\<close>

text \<open>
  The evaluator of \<^verbatim>\<open>compute_em_and_f1.py\<close> keeps running sums of four scores
  (exact match, F1, precision, recall) and breaks them down by answer type and by
  answering head. Python numbers are modelled by their value: a float score is a
  \<^typ>\<open>rat\<close>, an \<^verbatim>\<open>int\<close> counter is an \<^typ>\<open>int\<close>. The rounding of IEEE
  floating point is outside this model. A Python exception is a value of
  \<open>error\<close>; a computation that may raise returns \<open>error + 'a\<close>.
\<close>

datatype error = ValueError | TypeError | ZeroDivisionError | IndexError | OtherError string

type_synonym score = "rat \<times> rat \<times> rat \<times> rat"

subsection \<open>Strings\<close>

text \<open>
  \<^verbatim>\<open>str.strip()\<close> without an argument removes leading and trailing whitespace.
  Over the code points below 256, which is what a \<^typ>\<open>char\<close> holds, Python's
  \<^verbatim>\<open>str.isspace\<close> holds of the code points 9 to 13, 28 to 32, 133 and 160.
\<close>

definition isspace :: "char \<Rightarrow> bool" where
  "isspace c \<longleftrightarrow> (of_char c :: nat) \<in> {9, 10, 11, 12, 13, 28, 29, 30, 31, 32, 133, 160}"

definition strip :: "string \<Rightarrow> string" where
  "strip s = rev (dropWhile isspace (rev (dropWhile isspace s)))"

subsection \<open>Indexing a sequence\<close>

text \<open>
  \<^verbatim>\<open>xs[i]\<close> on a list or a tuple: a negative index counts from the end, and an
  index out of range raises \<^verbatim>\<open>IndexError\<close>.
\<close>

definition py_index :: "'a list \<Rightarrow> int \<Rightarrow> error + 'a" where
  "py_index xs i =
     (if 0 \<le> i \<and> i < int (length xs) then Inr (xs ! nat i)
      else if i < 0 \<and> - int (length xs) \<le> i then Inr (xs ! nat (int (length xs) + i))
      else Inl IndexError)"

subsection \<open>Dictionaries\<close>

text \<open>
  A Python \<^verbatim>\<open>dict\<close> keeps its keys in insertion order: it is modelled as an
  association list with distinct keys. \<^verbatim>\<open>d[k] = v\<close> on a plain dictionary is
  \<^const>\<open>AList.update\<close>, which replaces the value of a key that is present and appends
  the key otherwise. Reading \<^verbatim>\<open>d[k]\<close> from a \<^verbatim>\<open>defaultdict\<close> stores
  the default under a key that is missing, so a read returns the dictionary too.
\<close>

definition dd_getitem :: "'v \<Rightarrow> 'k \<Rightarrow> ('k \<times> 'v) list \<Rightarrow> 'v \<times> ('k \<times> 'v) list" where
  "dd_getitem d k m = (case map_of m k of Some v \<Rightarrow> (v, m) | None \<Rightarrow> (d, m @ [(k, d)]))"

text \<open>\<^verbatim>\<open>d[k] += x\<close> on a \<^verbatim>\<open>defaultdict(float)\<close> or \<^verbatim>\<open>defaultdict(int)\<close>.\<close>

definition dd_iadd :: "'k \<Rightarrow> 'v::{zero,plus} \<Rightarrow> ('k \<times> 'v) list \<Rightarrow> ('k \<times> 'v) list" where
  "dd_iadd k x m = (case dd_getitem 0 k m of (v, m1) \<Rightarrow> AList.update k (v + x) m1)"

text \<open>
  The two-level dictionaries are \<^verbatim>\<open>defaultdict(lambda: defaultdict(float))\<close>:
  \<^verbatim>\<open>d[t][h]\<close> reads, \<^verbatim>\<open>d[t][h] += x\<close> adds, and both create what is missing.
  The inner dictionary is owned by the outer one alone, so the change of the inner
  dictionary is written back under its key.
\<close>

definition dd2_getitem ::
  "'k \<Rightarrow> 'h \<Rightarrow> ('k \<times> ('h \<times> 'v::zero) list) list \<Rightarrow> 'v \<times> ('k \<times> ('h \<times> 'v) list) list" where
  "dd2_getitem t h m =
     (case dd_getitem [] t m of (inner, m1) \<Rightarrow>
        (case dd_getitem 0 h inner of (v, inner1) \<Rightarrow> (v, AList.update t inner1 m1)))"

definition dd2_iadd ::
  "'k \<Rightarrow> 'h \<Rightarrow> 'v::{zero,plus} \<Rightarrow> ('k \<times> ('h \<times> 'v) list) list \<Rightarrow> ('k \<times> ('h \<times> 'v) list) list" where
  "dd2_iadd t h x m =
     (case dd_getitem [] t m of (inner, m1) \<Rightarrow> AList.update t (dd_iadd h x inner) m1)"

text \<open>
  \<^verbatim>\<open>d[t][h] = v\<close> on a \<^verbatim>\<open>defaultdict(lambda: {})\<close>: the inner dictionary is plain.
\<close>

definition dd2_setitem ::
  "'k \<Rightarrow> 'h \<Rightarrow> 'v \<Rightarrow> ('k \<times> ('h \<times> 'v) list) list \<Rightarrow> ('k \<times> ('h \<times> 'v) list) list" where
  "dd2_setitem t h v m =
     (case dd_getitem [] t m of (inner, m1) \<Rightarrow> AList.update t (AList.update h v inner) m1)"

text \<open>The value a key reads as, zero when the key is missing, at one and at two levels.\<close>

definition lookup0 :: "('k \<times> 'v::zero) list \<Rightarrow> 'k \<Rightarrow> 'v" where
  "lookup0 m k = (case map_of m k of None \<Rightarrow> 0 | Some v \<Rightarrow> v)"

definition cell :: "('k \<times> ('h \<times> 'v::zero) list) list \<Rightarrow> 'k \<Rightarrow> 'h \<Rightarrow> 'v" where
  "cell m t h = (case map_of m t of None \<Rightarrow> 0 | Some inner \<Rightarrow> lookup0 inner h)"

text \<open>A loop whose body may raise: the first exception ends it.\<close>

fun fold_err :: "('x \<Rightarrow> 's \<Rightarrow> 'e + 's) \<Rightarrow> 'x list \<Rightarrow> 's \<Rightarrow> 'e + 's" where
  "fold_err f [] s = Inr s"
| "fold_err f (x # xs) s = (case f x s of Inl e \<Rightarrow> Inl e | Inr s' \<Rightarrow> fold_err f xs s')"

section \<open>The maximum over the ground truths\<close>

text \<open>
  \<^verbatim>\<open>max(a, b)\<close> keeps its first argument unless the second is greater.
\<close>

definition py_max :: "rat \<Rightarrow> rat \<Rightarrow> rat" where
  "py_max a b = (if a < b then b else a)"

text \<open>
  The guard of line 161: a ground truth takes part in the comparison when its tuple of
  answer strings is empty, or when its first answer string is not blank.
\<close>

definition compared :: "string list \<Rightarrow> bool" where
  "compared ground_truth \<longleftrightarrow>
     length ground_truth = 0 \<or> (length ground_truth > 0 \<and> strip (ground_truth ! 0) \<noteq> [])"

text \<open>
  The body of the loop of \<^verbatim>\<open>metric_max_over_ground_truths\<close>, lines 161 to 167,
  once the scorer has returned: the four maxima are updated, then the index is recorded
  when the four scores equal the four maxima.
\<close>

fun loop_body :: "nat \<Rightarrow> string list \<Rightarrow> score \<Rightarrow> score \<times> int \<Rightarrow> score \<times> int" where
  "loop_body i ground_truth (em_score, f1_score, p_score, r_score)
       ((max_em_score, max_f1_score, max_p_score, max_r_score), maximizing_index) =
     (if compared ground_truth then
        (let max_em = py_max max_em_score em_score;
             max_f1 = py_max max_f1_score f1_score;
             max_p = py_max max_p_score p_score;
             max_r = py_max max_r_score r_score
         in ((max_em, max_f1, max_p, max_r),
             (if max_em = em_score \<and> max_f1 = f1_score \<and> max_p = p_score \<and> max_r = r_score
              then int i else maximizing_index)))
      else ((max_em_score, max_f1_score, max_p_score, max_r_score), maximizing_index))"

text \<open>
  The loop over \<^verbatim>\<open>enumerate(ground_truths)\<close>. The scorer is called for every
  ground truth, before the guard, and an exception it raises ends the loop.
\<close>

fun mmogt_loop ::
  "('p \<Rightarrow> string list \<Rightarrow> error + score) \<Rightarrow> 'p \<Rightarrow> (nat \<times> string list) list \<Rightarrow>
     score \<times> int \<Rightarrow> error + score \<times> int" where
  "mmogt_loop metric_fn prediction [] acc = Inr acc"
| "mmogt_loop metric_fn prediction ((i, ground_truth) # rest) acc =
     (case metric_fn prediction ground_truth of
        Inl e \<Rightarrow> Inl e
      | Inr sc \<Rightarrow> mmogt_loop metric_fn prediction rest (loop_body i ground_truth sc acc))"

definition metric_max_over_ground_truths ::
  "('p \<Rightarrow> string list \<Rightarrow> error + score) \<Rightarrow> 'p \<Rightarrow> string list list \<Rightarrow> error + score \<times> int" where
  "metric_max_over_ground_truths metric_fn prediction ground_truths =
     mmogt_loop metric_fn prediction (enumerate 0 ground_truths) ((0, 0, 0, 0), - 1)"

section \<open>The accumulator\<close>

text \<open>
  The fields of \<^verbatim>\<open>EmAndF1Evaluator\<close>. The field \<^verbatim>\<open>_count\<close> is
  \<open>total_count\<close> here.
\<close>

record evaluator =
  total_em :: rat
  total_f1 :: rat
  total_p :: rat
  total_r :: rat
  total_count :: int
  answer_type_head_em :: "(string \<times> (string \<times> rat) list) list"
  answer_type_head_f1 :: "(string \<times> (string \<times> rat) list) list"
  answer_type_head_p :: "(string \<times> (string \<times> rat) list) list"
  answer_type_head_r :: "(string \<times> (string \<times> rat) list) list"
  answer_type_head_count :: "(string \<times> (string \<times> int) list) list"

text \<open>\<^verbatim>\<open>__init__\<close>, lines 20 to 30.\<close>

definition init :: evaluator where
  "init = \<lparr>total_em = 0, total_f1 = 0, total_p = 0, total_r = 0, total_count = 0,
            answer_type_head_em = [], answer_type_head_f1 = [], answer_type_head_p = [],
            answer_type_head_r = [], answer_type_head_count = []\<rparr>"

text \<open>\<^verbatim>\<open>reset\<close>, lines 129 to 139: every field is assigned anew.\<close>

definition reset :: "evaluator \<Rightarrow> evaluator" where
  "reset s = s\<lparr>total_em := 0, total_f1 := 0, total_p := 0, total_r := 0, total_count := 0,
               answer_type_head_em := [], answer_type_head_f1 := [], answer_type_head_p := [],
               answer_type_head_r := [], answer_type_head_count := []\<rparr>"

subsection \<open>\<^verbatim>\<open>call\<close>\<close>

text \<open>
  The list comprehension of line 48 calls the normaliser
  \<^verbatim>\<open>answer_json_to_strings\<close> on every annotation, in order; its first exception
  ends the call. The normaliser and the scorer are not part of this file of the
  repository: they are parameters, and may raise.
\<close>

fun normalize_all ::
  "('a \<Rightarrow> error + string list \<times> string) \<Rightarrow> 'a list \<Rightarrow> error + (string list \<times> string) list" where
  "normalize_all answer_json_to_strings [] = Inr []"
| "normalize_all answer_json_to_strings (annotation # rest) =
     (case answer_json_to_strings annotation of
        Inl e \<Rightarrow> Inl e
      | Inr x \<Rightarrow>
          (case normalize_all answer_json_to_strings rest of
             Inl e \<Rightarrow> Inl e
           | Inr xs \<Rightarrow> Inr (x # xs)))"

text \<open>
  \<^verbatim>\<open>a, b = list(zip(*pairs))\<close>: the transposed list has two elements when there
  is a pair, and none when there is no pair; then the unpacking into two names raises
  \<^verbatim>\<open>ValueError\<close>.
\<close>

definition unzip_pairs :: "('x \<times> 'y) list \<Rightarrow> error + 'x list \<times> 'y list" where
  "unzip_pairs pairs = (if pairs = [] then Inl ValueError else Inr (map fst pairs, map snd pairs))"

text \<open>
  \<^verbatim>\<open>call\<close>, lines 45 to 68. The result is what the call returns or raises, with
  the accumulator as the call leaves it.
\<close>

definition call ::
  "('a \<Rightarrow> error + string list \<times> string) \<Rightarrow> ('p \<Rightarrow> string list \<Rightarrow> error + score) \<Rightarrow>
     evaluator \<Rightarrow> 'p \<Rightarrow> 'a list \<Rightarrow> string \<Rightarrow> (error + score \<times> 'a) \<times> evaluator" where
  "call answer_json_to_strings compute_em_and_f1 s prediction ground_truths predicted_ability =
     (case normalize_all answer_json_to_strings ground_truths of
        Inl e \<Rightarrow> (Inl e, s)
      | Inr pairs \<Rightarrow>
     (case unzip_pairs pairs of
        Inl e \<Rightarrow> (Inl e, s)
      | Inr (ground_truth_answer_strings, ground_truth_answer_types) \<Rightarrow>
     (case metric_max_over_ground_truths compute_em_and_f1 prediction ground_truth_answer_strings of
        Inl e \<Rightarrow> (Inl e, s)
      | Inr ((exact_match, f1_score, p_score, r_score), maximizing_ground_truth_index) \<Rightarrow>
     (let s1 = s\<lparr>total_em := total_em s + exact_match,
                  total_f1 := total_f1 s + f1_score,
                  total_p := total_p s + p_score,
                  total_r := total_r s + r_score,
                  total_count := total_count s + 1\<rparr>
      in
     (case py_index ground_truth_answer_types maximizing_ground_truth_index of
        Inl e \<Rightarrow> (Inl e, s1)
      | Inr answer_type \<Rightarrow>
     (let s2 = s1\<lparr>
            answer_type_head_em :=
              dd2_iadd answer_type predicted_ability exact_match (answer_type_head_em s1),
            answer_type_head_f1 :=
              dd2_iadd answer_type predicted_ability f1_score (answer_type_head_f1 s1),
            answer_type_head_p :=
              dd2_iadd answer_type predicted_ability p_score (answer_type_head_p s1),
            answer_type_head_r :=
              dd2_iadd answer_type predicted_ability r_score (answer_type_head_r s1),
            answer_type_head_count :=
              dd2_iadd answer_type predicted_ability 1 (answer_type_head_count s1)\<rparr>
      in
     (case py_index ground_truths maximizing_ground_truth_index of
        Inl e \<Rightarrow> (Inl e, s2)
      | Inr ground_truth \<Rightarrow>
          (Inr ((exact_match, f1_score, p_score, r_score), ground_truth), s2))))))))"

section \<open>\<^verbatim>\<open>get_metric\<close>\<close>

text \<open>
  A tuple of numbers that \<^verbatim>\<open>get_metric\<close> returns is the list of their values.
  The local variables of \<^verbatim>\<open>get_metric\<close> that its loops change, with the
  accumulator itself: reading a cell of a \<^verbatim>\<open>defaultdict\<close> may store a default
  in it.
\<close>

record frame =
  self :: evaluator
  scores_per_answer_type_and_head :: "(string \<times> (string \<times> rat list) list) list"
  scores_per_answer_type :: "(string \<times> rat list) list"
  em_per_head :: "(string \<times> rat) list"
  f1_per_head :: "(string \<times> rat) list"
  p_per_head :: "(string \<times> rat) list"
  r_per_head :: "(string \<times> rat) list"
  count_per_head :: "(string \<times> int) list"
  type_count :: int
  type_em :: rat
  type_f1 :: rat
  type_p :: rat
  type_r :: rat

text \<open>
  The body of the inner loop, lines 101 to 117, for one \<open>(head, count)\<close> item. The
  four cells are read first; each is read three times in the source, and the second
  and third read find the key. The divisions by \<open>count\<close> raise when it is zero; the
  exception carries the accumulator as the reads left it.
\<close>

definition inner_body :: "string \<Rightarrow> string \<times> int \<Rightarrow> frame \<Rightarrow> error \<times> evaluator + frame" where
  "inner_body answer_type item fr =
     (case item of (head, cnt) \<Rightarrow>
     (case dd2_getitem answer_type head (answer_type_head_em (self fr)) of (em, m_em) \<Rightarrow>
     (case dd2_getitem answer_type head (answer_type_head_f1 (self fr)) of (f1, m_f1) \<Rightarrow>
     (case dd2_getitem answer_type head (answer_type_head_p (self fr)) of (p, m_p) \<Rightarrow>
     (case dd2_getitem answer_type head (answer_type_head_r (self fr)) of (r, m_r) \<Rightarrow>
     (let self1 = (self fr)\<lparr>answer_type_head_em := m_em, answer_type_head_f1 := m_f1,
                            answer_type_head_p := m_p, answer_type_head_r := m_r\<rparr>
      in if cnt = 0 then Inl (ZeroDivisionError, self1)
         else Inr (fr\<lparr>self := self1,
                type_count := type_count fr + cnt,
                type_em := type_em fr + em,
                type_f1 := type_f1 fr + f1,
                type_p := type_p fr + p,
                type_r := type_r fr + r,
                em_per_head := dd_iadd head em (em_per_head fr),
                f1_per_head := dd_iadd head f1 (f1_per_head fr),
                p_per_head := dd_iadd head p (p_per_head fr),
                r_per_head := dd_iadd head r (r_per_head fr),
                count_per_head := dd_iadd head cnt (count_per_head fr),
                scores_per_answer_type_and_head :=
                  dd2_setitem answer_type head
                    [em / of_int cnt, f1 / of_int cnt, p / of_int cnt, r / of_int cnt, of_int cnt]
                    (scores_per_answer_type_and_head fr)\<rparr>)))))))"

text \<open>The body of the outer loop, lines 94 to 119, for one \<open>(answer_type, head_count)\<close> item.\<close>

definition outer_body ::
  "string \<times> (string \<times> int) list \<Rightarrow> frame \<Rightarrow> error \<times> evaluator + frame" where
  "outer_body item fr =
     (case item of (answer_type, head_count) \<Rightarrow>
     (case fold_err (inner_body answer_type) head_count
             (fr\<lparr>type_count := 0, type_em := 0, type_f1 := 0, type_p := 0, type_r := 0\<rparr>) of
        Inl x \<Rightarrow> Inl x
      | Inr fr1 \<Rightarrow>
          if type_count fr1 = 0 then Inl (ZeroDivisionError, self fr1)
          else Inr (fr1\<lparr>scores_per_answer_type :=
                 AList.update answer_type
                   [type_em fr1 / of_int (type_count fr1), type_f1 fr1 / of_int (type_count fr1),
                    type_p fr1 / of_int (type_count fr1), type_r fr1 / of_int (type_count fr1),
                    of_int (type_count fr1)]
                   (scores_per_answer_type fr1)\<rparr>)))"

text \<open>The body of the last loop, lines 121 and 122, over \<^verbatim>\<open>count_per_head.items()\<close>.\<close>

definition head_body ::
  "frame \<Rightarrow> string \<times> int \<Rightarrow> (string \<times> rat list) list \<Rightarrow> error + (string \<times> rat list) list" where
  "head_body fr item scores_per_head =
     (case item of (head, cnt) \<Rightarrow>
        if cnt = 0 then Inl ZeroDivisionError
        else Inr (AList.update head
               [lookup0 (em_per_head fr) head / of_int cnt, lookup0 (f1_per_head fr) head / of_int cnt,
                lookup0 (p_per_head fr) head / of_int cnt, lookup0 (r_per_head fr) head / of_int cnt,
                of_int cnt]
               scores_per_head))"

type_synonym views =
  "rat list \<times> (string \<times> (string \<times> rat list) list) list \<times> (string \<times> rat list) list \<times>
   (string \<times> rat list) list"

text \<open>
  \<^verbatim>\<open>get_metric\<close>, lines 71 to 126: what it returns or raises, and the accumulator
  as it leaves it.
\<close>

definition get_metric :: "evaluator \<Rightarrow> bool \<Rightarrow> (error + views) \<times> evaluator" where
  "get_metric s reset_flag =
     (let exact_match = (if total_count s > 0 then total_em s / of_int (total_count s) else 0);
          f1_score = (if total_count s > 0 then total_f1 s / of_int (total_count s) else 0);
          p_score = (if total_count s > 0 then total_p s / of_int (total_count s) else 0);
          r_score = (if total_count s > 0 then total_r s / of_int (total_count s) else 0);
          fr0 = \<lparr>self = s, scores_per_answer_type_and_head = [], scores_per_answer_type = [],
                  em_per_head = [], f1_per_head = [], p_per_head = [], r_per_head = [],
                  count_per_head = [], type_count = 0, type_em = 0, type_f1 = 0, type_p = 0,
                  type_r = 0\<rparr>
      in case fold_err outer_body (answer_type_head_count s) fr0 of
           Inl (e, s') \<Rightarrow> (Inl e, s')
         | Inr fr \<Rightarrow>
             (case fold_err (head_body fr) (count_per_head fr) [] of
                Inl e \<Rightarrow> (Inl e, self fr)
              | Inr scores_per_head \<Rightarrow>
                  (Inr ([exact_match, f1_score, p_score, r_score],
                        scores_per_answer_type_and_head fr, scores_per_answer_type fr,
                        scores_per_head),
                   if reset_flag then reset (self fr) else self fr)))"

section \<open>The selection of the maximizing ground truth\<close>

subsection \<open>The running maxima and the recorded index, in the words of the specification\<close>

fun em_of :: "score \<Rightarrow> rat" where "em_of (em, f1, p, r) = em"
fun f1_of :: "score \<Rightarrow> rat" where "f1_of (em, f1, p, r) = f1"
fun p_of :: "score \<Rightarrow> rat" where "p_of (em, f1, p, r) = p"
fun r_of :: "score \<Rightarrow> rat" where "r_of (em, f1, p, r) = r"

text \<open>
  \<open>running_max c sc gts k\<close> is the maximum of component \<open>c\<close> seen after the first
  \<open>k\<close> ground truths: the largest of \<open>0\<close> and the scores \<open>sc g\<close> of the ground
  truths among them that take part in the comparison.
\<close>

definition running_max ::
  "(score \<Rightarrow> rat) \<Rightarrow> (string list \<Rightarrow> score) \<Rightarrow> string list list \<Rightarrow> nat \<Rightarrow> rat" where
  "running_max c sc gts k = fold max (map (\<lambda>g. c (sc g)) (filter compared (take k gts))) 0"

definition running_maxima :: "(string list \<Rightarrow> score) \<Rightarrow> string list list \<Rightarrow> nat \<Rightarrow> score" where
  "running_maxima sc gts k =
     (running_max em_of sc gts k, running_max f1_of sc gts k,
      running_max p_of sc gts k, running_max r_of sc gts k)"

text \<open>
  Index \<open>i\<close> is recorded when its ground truth takes part in the comparison and its
  four scores equal the four running maxima after it.
\<close>

definition records :: "(string list \<Rightarrow> score) \<Rightarrow> string list list \<Rightarrow> nat \<Rightarrow> bool" where
  "records sc gts i \<longleftrightarrow>
     compared (gts ! i) \<and> sc (gts ! i) = running_maxima sc gts (Suc i)"

definition last_recorded :: "(string list \<Rightarrow> score) \<Rightarrow> string list list \<Rightarrow> nat \<Rightarrow> int" where
  "last_recorded sc gts k =
     (case filter (records sc gts) (rev [0..<k]) of [] \<Rightarrow> - 1 | i # _ \<Rightarrow> int i)"

text \<open>Some component of the score at \<open>i\<close> is below the maximum seen before \<open>i\<close>.\<close>

definition below_some_maximum :: "(string list \<Rightarrow> score) \<Rightarrow> string list list \<Rightarrow> nat \<Rightarrow> bool" where
  "below_some_maximum sc gts i \<longleftrightarrow>
     em_of (sc (gts ! i)) < running_max em_of sc gts i \<or>
     f1_of (sc (gts ! i)) < running_max f1_of sc gts i \<or>
     p_of (sc (gts ! i)) < running_max p_of sc gts i \<or>
     r_of (sc (gts ! i)) < running_max r_of sc gts i"

text \<open>
  The rule as the specification's step 3 words it, with no ground truth left out: the
  running maximum is taken over every score up to \<open>i\<close>, and the index is the last one
  whose four scores equal the four running maxima.
\<close>

definition stated_running_max :: "(score \<Rightarrow> rat) \<Rightarrow> score list \<Rightarrow> nat \<Rightarrow> rat" where
  "stated_running_max c scores i = fold max (map c (take (Suc i) scores)) 0"

definition stated_records :: "score list \<Rightarrow> nat \<Rightarrow> bool" where
  "stated_records scores i \<longleftrightarrow>
     scores ! i = (stated_running_max em_of scores i, stated_running_max f1_of scores i,
                   stated_running_max p_of scores i, stated_running_max r_of scores i)"

definition stated_maximizing_index :: "score list \<Rightarrow> int" where
  "stated_maximizing_index scores =
     (case filter (stated_records scores) (rev [0..<length scores]) of
        [] \<Rightarrow> - 1 | i # _ \<Rightarrow> int i)"

text \<open>A scorer for the examples: \<open>[''a'']\<close> scores \<open>(1, 1/2, 1/2, 1/2)\<close>, anything else \<open>(0, 1, 1, 1)\<close>.\<close>

definition sc_w :: "string list \<Rightarrow> score" where
  "sc_w g = (if g = [''a''] then (1, 1/2, 1/2, 1/2) else (0, 1, 1, 1))"

subsection \<open>The loop computes the running maxima and the last recorded index\<close>

lemma py_max_eq: "py_max a b = max a b"
  by (simp add: py_max_def max_def)

lemma mmogt_loop_append:
  "mmogt_loop f p (xs @ ys) acc =
     (case mmogt_loop f p xs acc of Inl e \<Rightarrow> Inl e | Inr acc' \<Rightarrow> mmogt_loop f p ys acc')"
  by (induction f p xs acc rule: mmogt_loop.induct)
     (simp_all del: loop_body.simps split: sum.splits)

lemma running_max_Suc:
  "k < length gts \<Longrightarrow>
   running_max c sc gts (Suc k) =
     (if compared (gts ! k) then max (running_max c sc gts k) (c (sc (gts ! k)))
      else running_max c sc gts k)"
  by (simp add: running_max_def take_Suc_conv_app_nth max.commute)

lemma running_max_mono:
  "k < length gts \<Longrightarrow> running_max c sc gts k \<le> running_max c sc gts (Suc k)"
  by (simp add: running_max_Suc)

lemma last_recorded_Suc:
  "last_recorded sc gts (Suc k) = (if records sc gts k then int k else last_recorded sc gts k)"
  by (simp add: last_recorded_def)

lemma loop_body_step:
  assumes "k < length gts"
  shows "loop_body k (gts ! k) (sc (gts ! k)) (running_maxima sc gts k, last_recorded sc gts k) =
         (running_maxima sc gts (Suc k), last_recorded sc gts (Suc k))"
proof (cases "sc (gts ! k)")
  case (fields em f1 p r)
  show ?thesis
  proof (cases "compared (gts ! k)")
    case True
    with fields assms show ?thesis
      by (simp add: running_maxima_def running_max_Suc last_recorded_Suc records_def
            py_max_eq Let_def)
  next
    case False
    with fields assms show ?thesis
      by (simp add: running_maxima_def running_max_Suc last_recorded_Suc records_def)
  qed
qed

lemma mmogt_loop_prefix:
  assumes ok: "\<And>g. g \<in> set gts \<Longrightarrow> metric_fn prediction g = Inr (sc g)"
  shows "k \<le> length gts \<Longrightarrow>
     mmogt_loop metric_fn prediction (enumerate 0 (take k gts))
         (running_maxima sc gts 0, last_recorded sc gts 0) =
       Inr (running_maxima sc gts k, last_recorded sc gts k)"
proof (induction k)
  case 0
  show ?case by simp
next
  case (Suc k)
  then have k: "k < length gts" by simp
  have en: "enumerate 0 (take (Suc k) gts) = enumerate 0 (take k gts) @ [(k, gts ! k)]"
    using k by (simp add: take_Suc_conv_app_nth enumerate_append_eq min_def)
  have "metric_fn prediction (gts ! k) = Inr (sc (gts ! k))"
    using k by (simp add: ok)
  with Suc k show ?case
    by (simp add: en mmogt_loop_append loop_body_step)
qed

lemma metric_max_over_ground_truths_eq:
  assumes "\<And>g. g \<in> set gts \<Longrightarrow> metric_fn prediction g = Inr (sc g)"
  shows "metric_max_over_ground_truths metric_fn prediction gts =
           Inr (running_maxima sc gts (length gts), last_recorded sc gts (length gts))"
  using mmogt_loop_prefix [of gts metric_fn prediction sc "length gts"] assms
  by (simp add: metric_max_over_ground_truths_def running_maxima_def running_max_def
        last_recorded_def)

lemma last_recorded_cases:
  "(last_recorded sc gts k = - 1 \<and> (\<forall>i<k. \<not> records sc gts i)) \<or>
   (\<exists>i<k. last_recorded sc gts k = int i \<and> records sc gts i \<and>
      (\<forall>j. i < j \<and> j < k \<longrightarrow> \<not> records sc gts j))"
proof (induction k)
  case 0
  show ?case by (simp add: last_recorded_def)
next
  case (Suc k)
  show ?case
  proof (cases "records sc gts k")
    case True
    then show ?thesis by (auto simp: last_recorded_Suc)
  next
    case False
    with Suc show ?thesis
      by (auto simp: last_recorded_Suc less_Suc_eq)
  qed
qed

lemma below_running_max_not_recorded:
  assumes "i < length gts" and "below_some_maximum sc gts i"
  shows "\<not> records sc gts i"
proof
  assume "records sc gts i"
  then have eq: "sc (gts ! i) = running_maxima sc gts (Suc i)"
    by (simp add: records_def)
  have "em_of (sc (gts ! i)) = running_max em_of sc gts (Suc i)"
       "f1_of (sc (gts ! i)) = running_max f1_of sc gts (Suc i)"
       "p_of (sc (gts ! i)) = running_max p_of sc gts (Suc i)"
       "r_of (sc (gts ! i)) = running_max r_of sc gts (Suc i)"
    by (simp_all add: eq running_maxima_def)
  moreover have "running_max em_of sc gts i \<le> running_max em_of sc gts (Suc i)"
       "running_max f1_of sc gts i \<le> running_max f1_of sc gts (Suc i)"
       "running_max p_of sc gts i \<le> running_max p_of sc gts (Suc i)"
       "running_max r_of sc gts i \<le> running_max r_of sc gts (Suc i)"
    using assms(1) by (simp_all add: running_max_mono)
  ultimately show False using assms(2) unfolding below_some_maximum_def by linarith
qed

text \<open>
  C1, as amended. When the scorer returns a score for every ground truth,
  \<^verbatim>\<open>metric_max_over_ground_truths\<close> returns the running maxima over the ground
  truths that take part in the comparison, and the index it returns is the last index
  that is recorded: one whose ground truth takes part in the comparison and whose four
  scores equal the four running maxima after it; it is \<open>-1\<close> when no index is recorded.
  An index with a component below the maximum seen before it is not the one returned,
  whatever its other components raise.
\<close>

theorem maximizing_index_is_last_recorded:
  assumes "\<And>g. g \<in> set gts \<Longrightarrow> metric_fn prediction g = Inr (sc g)"
  shows "\<exists>idx. metric_max_over_ground_truths metric_fn prediction gts =
             Inr (running_maxima sc gts (length gts), idx) \<and>
           ((idx = - 1 \<and> (\<forall>i<length gts. \<not> records sc gts i)) \<or>
            (\<exists>i<length gts. idx = int i \<and> records sc gts i \<and>
               (\<forall>j. i < j \<and> j < length gts \<longrightarrow> \<not> records sc gts j))) \<and>
           (\<forall>i<length gts. below_some_maximum sc gts i \<longrightarrow> idx \<noteq> int i)"
proof -
  let ?idx = "last_recorded sc gts (length gts)"
  have run: "metric_max_over_ground_truths metric_fn prediction gts =
      Inr (running_maxima sc gts (length gts), ?idx)"
    using assms by (rule metric_max_over_ground_truths_eq)
  have last: "(?idx = - 1 \<and> (\<forall>i<length gts. \<not> records sc gts i)) \<or>
      (\<exists>i<length gts. ?idx = int i \<and> records sc gts i \<and>
         (\<forall>j. i < j \<and> j < length gts \<longrightarrow> \<not> records sc gts j))"
    by (rule last_recorded_cases)
  have "\<forall>i<length gts. below_some_maximum sc gts i \<longrightarrow> ?idx \<noteq> int i"
  proof (intro allI impI)
    fix i assume i: "i < length gts" and b: "below_some_maximum sc gts i"
    then have "\<not> records sc gts i"
      by (simp add: below_running_max_not_recorded)
    with last show "?idx \<noteq> int i" by auto
  qed
  with run last show ?thesis by blast
qed

theorem maximizing_index_is_last_recorded_witness:
  "metric_max_over_ground_truths (\<lambda>p g. Inr (sc_w g)) () [[''a''], [''b'']] = Inr ((1, 1, 1, 1), 0) \<and>
   records sc_w [[''a''], [''b'']] 0 \<and> \<not> records sc_w [[''a''], [''b'']] 1 \<and>
   below_some_maximum sc_w [[''a''], [''b'']] 1"
proof -
  have h: "\<And>g. g \<in> set [[''a''], [''b'']] \<Longrightarrow> (\<lambda>p g. Inr (sc_w g)) () g = Inr (sc_w g)"
    by simp
  have e: "running_maxima sc_w [[''a''], [''b'']] (length [[''a''], [''b'']]) = (1, 1, 1, 1)"
      "records sc_w [[''a''], [''b'']] 0" "\<not> records sc_w [[''a''], [''b'']] 1"
      "below_some_maximum sc_w [[''a''], [''b'']] 1"
    by code_simp+
  from maximizing_index_is_last_recorded [of "[[''a''], [''b'']]" "\<lambda>p g. Inr (sc_w g)" "()" sc_w, OF h]
  obtain idx where r: "metric_max_over_ground_truths (\<lambda>p g. Inr (sc_w g)) () [[''a''], [''b'']] =
        Inr (running_maxima sc_w [[''a''], [''b'']] (length [[''a''], [''b'']]), idx)"
     and c: "(idx = - 1 \<and> (\<forall>i<length [[''a''], [''b'']]. \<not> records sc_w [[''a''], [''b'']] i)) \<or>
        (\<exists>i<length [[''a''], [''b'']]. idx = int i \<and> records sc_w [[''a''], [''b'']] i \<and>
           (\<forall>j. i < j \<and> j < length [[''a''], [''b'']] \<longrightarrow> \<not> records sc_w [[''a''], [''b'']] j))"
    by blast
  from c e have "idx = 0"
    by (auto simp: less_Suc_eq)
  with r e show ?thesis by simp
qed

text \<open>
  C1 as stated fails on a blank ground truth. With the ground truths \<open>[''5'']\<close> and
  \<open>['' '']\<close>, both scored \<open>(1, 1, 1, 1)\<close>, the last index whose four scores equal the
  running maxima is 1, and the code returns 0: the blank ground truth is left out of
  the comparison.
\<close>

theorem blank_ground_truth_counterexample:
  "metric_max_over_ground_truths (\<lambda>p g. Inr (1, 1, 1, 1)) () [[''5''], ['' '']] =
     Inr ((1, 1, 1, 1), 0) \<and>
   stated_maximizing_index (map (\<lambda>g. (1, 1, 1, 1)) [[''5''], ['' '']]) = 1"
  by (simp add: metric_max_over_ground_truths_def compared_def strip_def isspace_def py_max_def
        stated_maximizing_index_def stated_records_def stated_running_max_def)

text \<open>
  C3. A ground truth whose tuple of answer strings is not empty and whose first answer
  string is blank after stripping is passed to the scorer, so that an exception of the
  scorer still ends the loop, and leaves the maxima and the index as they were. The
  empty tuple takes part: the maxima are updated with its score, and its index is
  recorded when its four scores reach the four maxima.
\<close>

theorem blank_first_answer_scored_not_compared:
  "(ground_truth \<noteq> [] \<and> strip (ground_truth ! 0) = [] \<longrightarrow>
      mmogt_loop metric_fn prediction ((i, ground_truth) # rest) acc =
        (case metric_fn prediction ground_truth of
           Inl e \<Rightarrow> Inl e
         | Inr sc \<Rightarrow> mmogt_loop metric_fn prediction rest acc)) \<and>
   mmogt_loop metric_fn prediction ((i, []) # rest) ((m_em, m_f1, m_p, m_r), idx) =
     (case metric_fn prediction [] of
        Inl e \<Rightarrow> Inl e
      | Inr (em, f1, p, r) \<Rightarrow>
          mmogt_loop metric_fn prediction rest
            ((max m_em em, max m_f1 f1, max m_p p, max m_r r),
             if m_em \<le> em \<and> m_f1 \<le> f1 \<and> m_p \<le> p \<and> m_r \<le> r then int i else idx))"
  by (cases acc) (auto simp: compared_def py_max_eq Let_def max_def split: sum.splits)

theorem blank_first_answer_scored_not_compared_witness:
  "metric_max_over_ground_truths (\<lambda>p g. Inr (1, 1, 1, 1)) () [[''  '']] = Inr ((0, 0, 0, 0), - 1) \<and>
   metric_max_over_ground_truths (\<lambda>p g. Inl (OtherError ''scorer'')) () [[''  '']] =
     Inl (OtherError ''scorer'') \<and>
   metric_max_over_ground_truths (\<lambda>p g. Inr (1, 1, 1, 1)) () [[]] = Inr ((1, 1, 1, 1), 0)"
proof -
  have b: "[''  ''] \<noteq> [] \<and> strip ([''  ''] ! 0) = []"
    by (simp add: strip_def isspace_def)
  have "mmogt_loop (\<lambda>p g. Inr (1, 1, 1, 1)) () ((0, [''  '']) # []) ((0, 0, 0, 0), - 1) =
          Inr ((0, 0, 0, 0), - 1)"
    using blank_first_answer_scored_not_compared
      [of "[''  '']" "\<lambda>p g. Inr (1, 1, 1, 1)" "()" 0 "[]" "((0, 0, 0, 0), - 1)"] b
    by simp
  moreover have "mmogt_loop (\<lambda>p g. Inl (OtherError ''scorer'')) () ((0, [''  '']) # []) ((0, 0, 0, 0), - 1) =
          Inl (OtherError ''scorer'')"
    by simp
  moreover have "mmogt_loop (\<lambda>p g. Inr (1, 1, 1, 1)) () ((0, []) # []) ((0, 0, 0, 0), - 1) =
          Inr ((1, 1, 1, 1), 0)"
    by (simp add: compared_def py_max_def)
  ultimately show ?thesis
    by (simp add: metric_max_over_ground_truths_def)
qed

section \<open>Properties of \<^verbatim>\<open>call\<close>\<close>

text \<open>
  The scores of the specification's data model lie between 0 and 1; what the selection
  needs of the scorer is that no score is negative.
\<close>

definition nonneg :: "score \<Rightarrow> bool" where
  "nonneg sc \<longleftrightarrow> 0 \<le> em_of sc \<and> 0 \<le> f1_of sc \<and> 0 \<le> p_of sc \<and> 0 \<le> r_of sc"

lemma py_index_last: "xs \<noteq> [] \<Longrightarrow> py_index xs (- 1) = Inr (last xs)"
  by (cases xs rule: rev_cases) (simp_all add: py_index_def nth_append)

lemma py_index_in_range:
  "- 1 \<le> i \<Longrightarrow> i < int (length xs) \<Longrightarrow> xs \<noteq> [] \<Longrightarrow> \<exists>x. py_index xs i = Inr x"
proof -
  assume a: "- 1 \<le> i" "i < int (length xs)" "xs \<noteq> []"
  then have "0 < length xs" by simp
  then have "1 \<le> int (length xs)" by linarith
  with a show ?thesis by (auto simp: py_index_def)
qed

lemma normalize_all_length:
  "normalize_all f as = Inr xs \<Longrightarrow> length xs = length as"
  by (induction as arbitrary: xs) (auto split: sum.splits)

lemma normalize_all_first_error:
  "\<forall>a\<in>set pre. \<exists>x. f a = Inr x \<Longrightarrow> f a = Inl e \<Longrightarrow> normalize_all f (pre @ a # post) = Inl e"
  by (induction pre) (auto split: sum.splits)

lemma normalize_all_map:
  "normalize_all f as = Inr xs \<Longrightarrow> map f as = map Inr xs"
  by (induction as arbitrary: xs) (auto split: sum.splits)

lemma mmogt_loop_index_range:
  "mmogt_loop f p (enumerate n xs) (m, i0) = Inr (mx, idx) \<Longrightarrow>
     idx = i0 \<or> (int n \<le> idx \<and> idx < int n + int (length xs))"
proof (induction xs arbitrary: n m i0)
  case Nil
  then show ?case by simp
next
  case (Cons x xs)
  from Cons.prems obtain sc where sc: "f p x = Inr sc"
    and rest: "mmogt_loop f p (enumerate (Suc n) xs) (loop_body n x sc (m, i0)) = Inr (mx, idx)"
    by (auto split: sum.splits)
  obtain m' i' where b: "loop_body n x sc (m, i0) = (m', i')"
    by (cases "loop_body n x sc (m, i0)")
  have i': "i' = i0 \<or> i' = int n"
    using b by (cases sc; cases m) (auto simp: Let_def split: if_splits)
  from Cons.IH [of "Suc n" m' i'] rest b
  have "idx = i' \<or> (int (Suc n) \<le> idx \<and> idx < int (Suc n) + int (length xs))" by simp
  with i' show ?case by auto
qed

lemma metric_max_index_range:
  "metric_max_over_ground_truths f p gts = Inr (mx, idx) \<Longrightarrow> - 1 \<le> idx \<and> idx < int (length gts)"
  using mmogt_loop_index_range [of f p 0 gts "(0, 0, 0, 0)" "- 1" mx idx]
  by (auto simp: metric_max_over_ground_truths_def)

lemma mmogt_loop_first_error:
  "\<forall>x\<in>set pre. \<exists>sc. f p (snd x) = Inr sc \<Longrightarrow> f p g = Inl e \<Longrightarrow>
   mmogt_loop f p (pre @ (i, g) # post) acc = Inl e"
  by (induction f p pre acc rule: mmogt_loop.induct) (auto simp del: loop_body.simps)

lemma metric_max_first_error:
  assumes "\<forall>x\<in>set pre. \<exists>sc. f p x = Inr sc" and "f p g = Inl e"
  shows "metric_max_over_ground_truths f p (pre @ g # post) = Inl e"
proof -
  have "enumerate 0 (pre @ g # post) =
      enumerate 0 pre @ (length pre, g) # enumerate (Suc (length pre)) post"
    by (simp add: enumerate_append_eq)
  moreover have "\<forall>x\<in>set (enumerate 0 pre). \<exists>sc. f p (snd x) = Inr sc"
    using assms(1) by (auto simp: in_set_enumerate_eq)
  ultimately show ?thesis
    using assms(2) by (simp add: metric_max_over_ground_truths_def mmogt_loop_first_error)
qed

lemma call_error_cases:
  assumes "fst (call N M s p gts h) = Inl e"
  shows "snd (call N M s p gts h) = s"
proof (cases "normalize_all N gts")
  case (Inl e')
  then show ?thesis by (simp add: call_def)
next
  case (Inr pairs)
  note n = this
  show ?thesis
  proof (cases "pairs = []")
    case True
    with n show ?thesis by (simp add: call_def unzip_pairs_def)
  next
    case False
    note ne = this
    show ?thesis
    proof (cases "metric_max_over_ground_truths M p (map fst pairs)")
      case (Inl e')
      with n ne show ?thesis by (simp add: call_def unzip_pairs_def)
    next
      case (Inr res)
      obtain em f1 pp r idx where res: "res = ((em, f1, pp, r), idx)"
        by (cases res) auto
      from Inr res have rng: "- 1 \<le> idx \<and> idx < int (length pairs)"
        using metric_max_index_range [of M p "map fst pairs" "(em, f1, pp, r)" idx] by simp
      have len: "length gts = length pairs"
        using n by (simp add: normalize_all_length)
      from rng ne obtain ty where ty: "py_index (map snd pairs) idx = Inr ty"
        using py_index_in_range [of idx "map snd pairs"] by auto
      from ne len have "gts \<noteq> []" by auto
      with rng len obtain g where g: "py_index gts idx = Inr g"
        using py_index_in_range [of idx gts] by auto
      from n ne Inr res ty g have "\<exists>x. fst (call N M s p gts h) = Inr x"
        by (simp add: call_def unzip_pairs_def Let_def)
      with assms show ?thesis by simp
    qed
  qed
qed


subsection \<open>The two-argument \<^verbatim>\<open>__call__\<close>\<close>

text \<open>
  Python binds the positional arguments of a call to the parameters of \<^verbatim>\<open>call\<close>
  before its body runs. The parameter \<^verbatim>\<open>predicted_ability\<close> has no default: a
  call that gives no argument for it raises \<^verbatim>\<open>TypeError\<close>. The argument is an
  option here, \<open>None\<close> when the call site leaves it out.
\<close>

definition call_positional ::
  "('a \<Rightarrow> error + string list \<times> string) \<Rightarrow> ('p \<Rightarrow> string list \<Rightarrow> error + score) \<Rightarrow>
     evaluator \<Rightarrow> 'p \<Rightarrow> 'a list \<Rightarrow> string option \<Rightarrow> (error + score \<times> 'a) \<times> evaluator" where
  "call_positional answer_json_to_strings compute_em_and_f1 s prediction ground_truths predicted_ability =
     (case predicted_ability of
        None \<Rightarrow> (Inl TypeError, s)
      | Some ability \<Rightarrow>
          call answer_json_to_strings compute_em_and_f1 s prediction ground_truths ability)"

text \<open>
  \<^verbatim>\<open>__call__\<close>, lines 33 to 43: it calls \<^verbatim>\<open>self.call(prediction, ground_truths)\<close>
  and returns nothing.
\<close>

definition dunder_call ::
  "('a \<Rightarrow> error + string list \<times> string) \<Rightarrow> ('p \<Rightarrow> string list \<Rightarrow> error + score) \<Rightarrow>
     evaluator \<Rightarrow> 'p \<Rightarrow> 'a list \<Rightarrow> (error + unit) \<times> evaluator" where
  "dunder_call answer_json_to_strings compute_em_and_f1 s prediction ground_truths =
     (case call_positional answer_json_to_strings compute_em_and_f1 s prediction ground_truths None of
        (Inl e, s') \<Rightarrow> (Inl e, s')
      | (Inr result, s') \<Rightarrow> (Inr (), s'))"

text \<open>
  A normaliser and a scorer for the examples: the annotation \<open>''bad''\<close> makes the
  normaliser raise, the answer \<open>''boom''\<close> makes the scorer raise.
\<close>

definition norm_w :: "string \<Rightarrow> error + string list \<times> string" where
  "norm_w a = (if a = ''bad'' then Inl (OtherError ''normalizer'') else Inr ([a], ''span''))"

definition score_w :: "string \<Rightarrow> string list \<Rightarrow> error + score" where
  "score_w p g =
     (if g = [''boom''] then Inl (OtherError ''scorer'')
      else if g = [p] then Inr (1, 1, 1, 1) else Inr (0, 0, 0, 0))"

text \<open>
  C8. \<^verbatim>\<open>call\<close> on no ground truth raises \<^verbatim>\<open>ValueError\<close>. The first
  exception of the normaliser, and the first exception of the scorer once every
  annotation is normalised, is what the call raises. Whenever the call raises, the
  accumulator is what it was before the call.
\<close>

theorem call_is_atomic:
  "call N M s p [] h = (Inl ValueError, s) \<and>
   ((\<forall>a\<in>set pre. \<exists>x. N a = Inr x) \<and> N a = Inl e \<longrightarrow>
      call N M s p (pre @ a # post) h = (Inl e, s)) \<and>
   (normalize_all N gts = Inr pairs \<and> map fst pairs = gpre @ g # gpost \<and>
    (\<forall>x\<in>set gpre. \<exists>sc. M p x = Inr sc) \<and> M p g = Inl e' \<longrightarrow>
      call N M s p gts h = (Inl e', s)) \<and>
   (fst (call N M s p gts h) = Inl e'' \<longrightarrow> snd (call N M s p gts h) = s)"
proof (intro conjI impI)
  show "call N M s p [] h = (Inl ValueError, s)"
    by (simp add: call_def unzip_pairs_def)
next
  assume "(\<forall>a\<in>set pre. \<exists>x. N a = Inr x) \<and> N a = Inl e"
  then have "normalize_all N (pre @ a # post) = Inl e"
    by (simp add: normalize_all_first_error)
  then show "call N M s p (pre @ a # post) h = (Inl e, s)"
    by (simp add: call_def)
next
  assume a: "normalize_all N gts = Inr pairs \<and> map fst pairs = gpre @ g # gpost \<and>
    (\<forall>x\<in>set gpre. \<exists>sc. M p x = Inr sc) \<and> M p g = Inl e'"
  then have "metric_max_over_ground_truths M p (map fst pairs) = Inl e'"
    by (simp add: metric_max_first_error)
  moreover from a have "pairs \<noteq> []" by auto
  ultimately show "call N M s p gts h = (Inl e', s)"
    using a by (simp add: call_def unzip_pairs_def)
next
  assume "fst (call N M s p gts h) = Inl e''"
  then show "snd (call N M s p gts h) = s"
    by (rule call_error_cases)
qed

theorem call_is_atomic_witness:
  "call norm_w score_w init ''x'' [''a'', ''bad'', ''c''] ''h'' = (Inl (OtherError ''normalizer''), init) \<and>
   call norm_w score_w init ''x'' [''a'', ''boom'', ''c''] ''h'' = (Inl (OtherError ''scorer''), init) \<and>
   snd (call norm_w score_w init ''x'' [''a'', ''boom'', ''c''] ''h'') = init"
proof -
  have 1: "(\<forall>a\<in>set [''a'']. \<exists>x. norm_w a = Inr x) \<and> norm_w ''bad'' = Inl (OtherError ''normalizer'')"
    by (simp add: norm_w_def)
  have 2: "normalize_all norm_w [''a'', ''boom'', ''c''] =
             Inr [([''a''], ''span''), ([''boom''], ''span''), ([''c''], ''span'')] \<and>
           map fst [([''a''], ''span''), ([''boom''], ''span''), ([''c''], ''span'')] =
             [[''a'']] @ [''boom''] # [[''c'']] \<and>
           (\<forall>x\<in>set [[''a'']]. \<exists>sc. score_w ''x'' x = Inr sc) \<and>
           score_w ''x'' [''boom''] = Inl (OtherError ''scorer'')"
    by (auto simp: norm_w_def score_w_def)
  note t = call_is_atomic [of norm_w score_w init "''x''" "''h''" "[''a'']" "''bad''"
      "OtherError ''normalizer''" "[''c'']" "[''a'', ''boom'', ''c'']"
      "[([''a''], ''span''), ([''boom''], ''span''), ([''c''], ''span'')]"
      "[[''a'']]" "[''boom'']" "[[''c'']]" "OtherError ''scorer''" "OtherError ''scorer''"]
  from t 1 have a: "call norm_w score_w init ''x'' ([''a''] @ ''bad'' # [''c'']) ''h'' =
      (Inl (OtherError ''normalizer''), init)" by blast
  from t 2 have b: "call norm_w score_w init ''x'' [''a'', ''boom'', ''c''] ''h'' =
      (Inl (OtherError ''scorer''), init)" by blast
  from b have "fst (call norm_w score_w init ''x'' [''a'', ''boom'', ''c''] ''h'') = Inl (OtherError ''scorer'')"
    by simp
  with t have c: "snd (call norm_w score_w init ''x'' [''a'', ''boom'', ''c''] ''h'') = init"
    by blast
  from a b c show ?thesis by simp
qed

text \<open>
  C10. \<^verbatim>\<open>__call__\<close> raises \<^verbatim>\<open>TypeError\<close> on every input and leaves the
  accumulator as it was; with the third argument given, the call is \<^verbatim>\<open>call\<close>.
\<close>

theorem dunder_call_raises_TypeError:
  "dunder_call N M s prediction ground_truths = (Inl TypeError, s) \<and>
   call_positional N M s prediction ground_truths (Some ability) =
     call N M s prediction ground_truths ability"
  by (simp add: dunder_call_def call_positional_def)

lemma no_record_nonneg:
  assumes nn: "\<And>g. g \<in> set gts \<Longrightarrow> nonneg (sc g)"
  shows "k \<le> length gts \<Longrightarrow> \<forall>i<k. \<not> records sc gts i \<Longrightarrow>
         (\<forall>i<k. \<not> compared (gts ! i)) \<and> running_maxima sc gts k = (0, 0, 0, 0)"
proof (induction k)
  case 0
  show ?case by (simp add: running_maxima_def running_max_def)
next
  case (Suc k)
  then have k: "k < length gts" and IH: "(\<forall>i<k. \<not> compared (gts ! i))"
      "running_maxima sc gts k = (0, 0, 0, 0)"
    by auto
  have nk: "nonneg (sc (gts ! k))" using k nn by simp
  have "\<not> compared (gts ! k)"
  proof
    assume c: "compared (gts ! k)"
    obtain em f1 p r where f: "sc (gts ! k) = (em, f1, p, r)" by (cases "sc (gts ! k)")
    with nk have "0 \<le> em" "0 \<le> f1" "0 \<le> p" "0 \<le> r" by (simp_all add: nonneg_def)
    with c f IH(2) k have "records sc gts k"
      by (simp add: records_def running_maxima_def running_max_Suc)
    with Suc.prems show False by simp
  qed
  with IH k show ?case
    by (auto simp: less_Suc_eq running_maxima_def running_max_Suc)
qed

text \<open>
  C2. Let every annotation be normalised and scored, with no negative score, and let no
  index be recorded. Then the maxima are \<open>(0, 0, 0, 0)\<close>, the index is \<open>-1\<close>, and
  \<^verbatim>\<open>call\<close> returns the maxima with the last ground truth; it adds one to the
  count and enters the cell of the last ground truth's answer type and the given head.
\<close>

theorem unrecorded_index_selects_last_ground_truth:
  assumes n: "normalize_all N gts = Inr pairs" and ne: "gts \<noteq> []"
      and sc: "\<And>g. g \<in> set (map fst pairs) \<Longrightarrow> M p g = Inr (sc g)"
      and nn: "\<And>g. g \<in> set (map fst pairs) \<Longrightarrow> nonneg (sc g)"
      and nr: "\<forall>i<length pairs. \<not> records sc (map fst pairs) i"
  shows "metric_max_over_ground_truths M p (map fst pairs) = Inr ((0, 0, 0, 0), - 1) \<and>
         N (last gts) = Inr (last pairs) \<and>
         call N M s p gts h =
           (Inr ((0, 0, 0, 0), last gts),
            s\<lparr>total_em := total_em s + 0, total_f1 := total_f1 s + 0,
              total_p := total_p s + 0, total_r := total_r s + 0,
              total_count := total_count s + 1,
              answer_type_head_em := dd2_iadd (snd (last pairs)) h 0 (answer_type_head_em s),
              answer_type_head_f1 := dd2_iadd (snd (last pairs)) h 0 (answer_type_head_f1 s),
              answer_type_head_p := dd2_iadd (snd (last pairs)) h 0 (answer_type_head_p s),
              answer_type_head_r := dd2_iadd (snd (last pairs)) h 0 (answer_type_head_r s),
              answer_type_head_count := dd2_iadd (snd (last pairs)) h 1 (answer_type_head_count s)\<rparr>)"
proof -
  have len: "length pairs = length gts" using n by (rule normalize_all_length)
  with ne have pne: "pairs \<noteq> []" by auto
  have mx: "running_maxima sc (map fst pairs) (length (map fst pairs)) = (0, 0, 0, 0)"
    using no_record_nonneg [of "map fst pairs" sc "length (map fst pairs)"] nn nr by simp
  have "last_recorded sc (map fst pairs) (length (map fst pairs)) = - 1"
    using last_recorded_cases [of sc "map fst pairs" "length (map fst pairs)"] nr by auto
  with mx have mm: "metric_max_over_ground_truths M p (map fst pairs) = Inr ((0, 0, 0, 0), - 1)"
    using metric_max_over_ground_truths_eq [of "map fst pairs" M p sc] sc by simp
  have "map N gts = map Inr pairs" using n by (rule normalize_all_map)
  then have "last (map N gts) = last (map Inr pairs)" by simp
  with ne pne have nl: "N (last gts) = Inr (last pairs)" by (simp add: last_map)
  have "py_index (map snd pairs) (- 1) = Inr (snd (last pairs))"
    using pne by (simp add: py_index_last last_map)
  moreover have "py_index gts (- 1) = Inr (last gts)"
    using ne by (simp add: py_index_last)
  ultimately have "call N M s p gts h =
           (Inr ((0, 0, 0, 0), last gts),
            s\<lparr>total_em := total_em s + 0, total_f1 := total_f1 s + 0,
              total_p := total_p s + 0, total_r := total_r s + 0,
              total_count := total_count s + 1,
              answer_type_head_em := dd2_iadd (snd (last pairs)) h 0 (answer_type_head_em s),
              answer_type_head_f1 := dd2_iadd (snd (last pairs)) h 0 (answer_type_head_f1 s),
              answer_type_head_p := dd2_iadd (snd (last pairs)) h 0 (answer_type_head_p s),
              answer_type_head_r := dd2_iadd (snd (last pairs)) h 0 (answer_type_head_r s),
              answer_type_head_count := dd2_iadd (snd (last pairs)) h 1 (answer_type_head_count s)\<rparr>)"
    using n pne mm by (simp add: call_def unzip_pairs_def Let_def)
  with mm nl show ?thesis by blast
qed

theorem unrecorded_index_selects_last_ground_truth_witness:
  "call Inr (\<lambda>p g. Inr (1, 1, 1, 1)) init ''3'' [(['' '', ''7''], ''number''), ([[]], ''span'')] ''h'' =
     (Inr ((0, 0, 0, 0), ([[]], ''span'')),
      init\<lparr>total_count := 1,
        answer_type_head_em := [(''span'', [(''h'', 0)])],
        answer_type_head_f1 := [(''span'', [(''h'', 0)])],
        answer_type_head_p := [(''span'', [(''h'', 0)])],
        answer_type_head_r := [(''span'', [(''h'', 0)])],
        answer_type_head_count := [(''span'', [(''h'', 1)])]\<rparr>)"
proof -
  let ?gts = "[(['' '', ''7''], ''number''), ([[]], ''span'')]"
  have n: "normalize_all Inr ?gts = Inr ?gts" by simp
  have ne: "?gts \<noteq> []" by simp
  have sc: "\<And>g. g \<in> set (map fst ?gts) \<Longrightarrow> (\<lambda>p g. Inr (1, 1, 1, 1)) ''3'' g = Inr ((\<lambda>g. (1, 1, 1, 1)) g)"
    by simp
  have nn: "\<And>g. g \<in> set (map fst ?gts) \<Longrightarrow> nonneg ((\<lambda>g. (1, 1, 1, 1)) g)"
    by (simp add: nonneg_def)
  have nr: "\<forall>i<length ?gts. \<not> records (\<lambda>g. (1, 1, 1, 1)) (map fst ?gts) i"
    by (simp add: less_Suc_eq records_def compared_def strip_def isspace_def)
  from unrecorded_index_selects_last_ground_truth
    [of Inr ?gts ?gts "\<lambda>p g. Inr (1, 1, 1, 1)" "''3''" "\<lambda>g. (1, 1, 1, 1)" init "''h''",
     OF n ne sc nn nr]
  show ?thesis
    by (simp add: init_def dd2_iadd_def dd_iadd_def dd_getitem_def)
qed

section \<open>Dictionaries as association lists\<close>

text \<open>
  What a two-level dictionary holds under a pair of keys, the inner dictionary of a
  key (empty when the key is missing), well-formedness (no key twice, at either
  level), the cells in iteration order, and the sum of all cells.
\<close>

definition lookup2 :: "('k \<times> ('h \<times> 'v) list) list \<Rightarrow> 'k \<Rightarrow> 'h \<Rightarrow> 'v option" where
  "lookup2 m t h = (case map_of m t of None \<Rightarrow> None | Some inner \<Rightarrow> map_of inner h)"

definition inner_of :: "('k \<times> ('h \<times> 'v) list) list \<Rightarrow> 'k \<Rightarrow> ('h \<times> 'v) list" where
  "inner_of m t = (case map_of m t of None \<Rightarrow> [] | Some inner \<Rightarrow> inner)"

definition wf2 :: "('k \<times> ('h \<times> 'v) list) list \<Rightarrow> bool" where
  "wf2 m \<longleftrightarrow> distinct (map fst m) \<and> (\<forall>inner\<in>set (map snd m). distinct (map fst inner))"

definition cells :: "('k \<times> ('h \<times> 'v) list) list \<Rightarrow> ('k \<times> 'h \<times> 'v) list" where
  "cells m = concat (map (\<lambda>(t, inner). map (\<lambda>(h, v). (t, h, v)) inner) m)"

definition sum_cells :: "('k \<times> ('h \<times> 'v::comm_monoid_add) list) list \<Rightarrow> 'v" where
  "sum_cells m = sum_list (map (\<lambda>(t, inner). sum_list (map snd inner)) m)"

text \<open>
  The operations of a \<^verbatim>\<open>defaultdict\<close>, expressed by \<^const>\<open>AList.update\<close>.
\<close>

lemma update_absent: "k \<notin> fst ` set al \<Longrightarrow> AList.update k v al = al @ [(k, v)]"
  by (induction al) auto

lemma dd_getitem_conv:
  "dd_getitem d k m =
     (case map_of m k of None \<Rightarrow> d | Some v \<Rightarrow> v,
      AList.update k (case map_of m k of None \<Rightarrow> d | Some v \<Rightarrow> v) m)"
proof (cases "map_of m k")
  case None
  then have "k \<notin> fst ` set m" by (simp add: map_of_eq_None_iff)
  with None show ?thesis by (simp add: dd_getitem_def update_absent)
next
  case (Some v)
  then show ?thesis by (simp add: dd_getitem_def update_triv)
qed

lemma dd_iadd_conv: "dd_iadd k x m = AList.update k (lookup0 m k + x) m"
  by (simp add: dd_iadd_def dd_getitem_conv lookup0_def)

lemma cell_inner_of: "cell m t h = lookup0 (inner_of m t) h"
  by (simp add: cell_def inner_of_def lookup0_def split: option.splits)

lemma dd2_iadd_conv:
  "dd2_iadd t h x m = AList.update t (AList.update h (cell m t h + x) (inner_of m t)) m"
  by (simp add: dd2_iadd_def dd_getitem_conv dd_iadd_conv cell_inner_of inner_of_def)

lemma dd2_setitem_conv:
  "dd2_setitem t h v m = AList.update t (AList.update h v (inner_of m t)) m"
  by (simp add: dd2_setitem_def dd_getitem_conv inner_of_def)

lemma dd2_getitem_present:
  "lookup2 m t h = Some v \<Longrightarrow> dd2_getitem t h m = (v, m)"
  by (auto simp: lookup2_def dd2_getitem_def dd_getitem_def update_triv split: option.splits)

lemma cell_present: "lookup2 m t h = Some v \<Longrightarrow> cell m t h = v"
  by (auto simp: lookup2_def cell_def lookup0_def split: option.splits)

lemma cell_lookup2: "cell m t h = (case lookup2 m t h of None \<Rightarrow> 0 | Some v \<Rightarrow> v)"
  by (auto simp: lookup2_def cell_def lookup0_def split: option.splits)

lemma lookup2_update:
  "lookup2 (AList.update t inner m) t' h' = (if t' = t then map_of inner h' else lookup2 m t' h')"
  by (simp add: lookup2_def update_conv')

lemma lookup2_dd2_iadd:
  "lookup2 (dd2_iadd t h x m) t' h' =
     (if t' = t \<and> h' = h then Some (cell m t h + x) else lookup2 m t' h')"
  by (simp add: dd2_iadd_conv lookup2_update update_conv') (simp add: lookup2_def inner_of_def split: option.splits)

lemma lookup2_dd2_setitem:
  "lookup2 (dd2_setitem t h v m) t' h' =
     (if t' = t \<and> h' = h then Some v else lookup2 m t' h')"
  by (simp add: dd2_setitem_conv lookup2_update update_conv') (simp add: lookup2_def inner_of_def split: option.splits)

lemma wf2_inner_of: "wf2 m \<Longrightarrow> distinct (map fst (inner_of m t))"
  by (auto simp: wf2_def inner_of_def split: option.splits dest!: map_of_SomeD)

lemma set_update_subset: "set (AList.update k v al) \<subseteq> insert (k, v) (set al)"
  by (induction al) auto

lemma wf2_update:
  "wf2 m \<Longrightarrow> distinct (map fst inner) \<Longrightarrow> wf2 (AList.update t inner m)"
  using set_update_subset [of t inner m]
  by (auto simp: wf2_def distinct_update)

lemma wf2_dd2_iadd: "wf2 m \<Longrightarrow> wf2 (dd2_iadd t h x m)"
  by (simp add: dd2_iadd_conv wf2_update wf2_inner_of distinct_update)

lemma wf2_dd2_setitem: "wf2 m \<Longrightarrow> wf2 (dd2_setitem t h x m)"
  by (simp add: dd2_setitem_conv wf2_update wf2_inner_of distinct_update)

lemma sum_list_update:
  fixes f :: "'k \<times> 'v \<Rightarrow> 'a::ab_group_add"
  shows "distinct (map fst al) \<Longrightarrow>
     sum_list (map f (AList.update k v al)) =
       sum_list (map f al) - (case map_of al k of None \<Rightarrow> 0 | Some v' \<Rightarrow> f (k, v')) + f (k, v)"
proof (induction al)
  case Nil
  show ?case by simp
next
  case (Cons a al)
  obtain k' v' where a: "a = (k', v')" by (cases a)
  show ?case
  proof (cases "k' = k")
    case True
    with a show ?thesis by simp
  next
    case False
    with a Cons show ?thesis by (simp add: algebra_simps)
  qed
qed

lemma sum_cells_conv:
  "sum_cells m = sum_list (map (\<lambda>ti. sum_list (map snd (snd ti))) m)"
  by (simp add: sum_cells_def split_def)

lemma sum_cells_dd2_iadd:
  fixes x :: "'v::ab_group_add"
  assumes "wf2 m"
  shows "sum_cells (dd2_iadd t h x m) = sum_cells m + x"
proof -
  let ?g = "\<lambda>ti :: 'a \<times> ('b \<times> 'v) list. sum_list (map snd (snd ti))"
  have d: "distinct (map fst m)" "distinct (map fst (inner_of m t))"
    using assms by (simp_all add: wf2_def wf2_inner_of)
  have old: "(case map_of m t of None \<Rightarrow> 0 | Some i \<Rightarrow> ?g (t, i)) = sum_list (map snd (inner_of m t))"
    by (simp add: inner_of_def split: option.splits)
  have new: "sum_list (map snd (AList.update h (cell m t h + x) (inner_of m t))) =
      sum_list (map snd (inner_of m t)) + x"
    using sum_list_update [of "inner_of m t" snd h "cell m t h + x"] d(2)
    by (simp add: cell_inner_of lookup0_def split: option.splits)
  show ?thesis
    using sum_list_update [of m ?g t "AList.update h (cell m t h + x) (inner_of m t)"] d(1)
    by (simp add: sum_cells_conv dd2_iadd_conv old new)
qed


section \<open>The invariant of the accumulator\<close>

text \<open>
  A cell of the count dictionary is in order when its count is at least 1 and the
  four value dictionaries have an entry under its keys. The invariant: the five
  dictionaries are well formed, no answer type has an empty inner dictionary, every
  cell of the count dictionary is in order, and the top-level count is the sum of the
  cells of the count dictionary.
\<close>

definition cell_ok :: "evaluator \<Rightarrow> string \<Rightarrow> string \<times> int \<Rightarrow> bool" where
  "cell_ok s t hc \<longleftrightarrow>
     1 \<le> snd hc \<and>
     lookup2 (answer_type_head_em s) t (fst hc) \<noteq> None \<and>
     lookup2 (answer_type_head_f1 s) t (fst hc) \<noteq> None \<and>
     lookup2 (answer_type_head_p s) t (fst hc) \<noteq> None \<and>
     lookup2 (answer_type_head_r s) t (fst hc) \<noteq> None"

definition keys_ok :: "evaluator \<Rightarrow> bool" where
  "keys_ok s \<longleftrightarrow>
     (\<forall>thc\<in>set (answer_type_head_count s).
        snd thc \<noteq> [] \<and> (\<forall>hc\<in>set (snd thc). cell_ok s (fst thc) hc))"

definition inv :: "evaluator \<Rightarrow> bool" where
  "inv s \<longleftrightarrow>
     wf2 (answer_type_head_em s) \<and> wf2 (answer_type_head_f1 s) \<and>
     wf2 (answer_type_head_p s) \<and> wf2 (answer_type_head_r s) \<and>
     wf2 (answer_type_head_count s) \<and> keys_ok s \<and>
     total_count s = sum_cells (answer_type_head_count s)"

text \<open>
  The mutation of lines 54 to 66, given the maxima, the answer type selected and the
  head.
\<close>

definition accumulate :: "evaluator \<Rightarrow> score \<Rightarrow> string \<Rightarrow> string \<Rightarrow> evaluator" where
  "accumulate s sc answer_type predicted_ability =
     s\<lparr>total_em := total_em s + em_of sc,
       total_f1 := total_f1 s + f1_of sc,
       total_p := total_p s + p_of sc,
       total_r := total_r s + r_of sc,
       total_count := total_count s + 1,
       answer_type_head_em :=
         dd2_iadd answer_type predicted_ability (em_of sc) (answer_type_head_em s),
       answer_type_head_f1 :=
         dd2_iadd answer_type predicted_ability (f1_of sc) (answer_type_head_f1 s),
       answer_type_head_p :=
         dd2_iadd answer_type predicted_ability (p_of sc) (answer_type_head_p s),
       answer_type_head_r :=
         dd2_iadd answer_type predicted_ability (r_of sc) (answer_type_head_r s),
       answer_type_head_count :=
         dd2_iadd answer_type predicted_ability 1 (answer_type_head_count s)\<rparr>"

text \<open>
  What \<^verbatim>\<open>call\<close> computes before it changes the accumulator: the maxima, the
  answer type and the ground truth selected, or the exception. It does not depend on
  the accumulator.
\<close>

definition selection ::
  "('a \<Rightarrow> error + string list \<times> string) \<Rightarrow> ('p \<Rightarrow> string list \<Rightarrow> error + score) \<Rightarrow>
     'p \<Rightarrow> 'a list \<Rightarrow> error + score \<times> string \<times> 'a" where
  "selection N M p gts =
     (case normalize_all N gts of
        Inl e \<Rightarrow> Inl e
      | Inr pairs \<Rightarrow>
          (case unzip_pairs pairs of
             Inl e \<Rightarrow> Inl e
           | Inr (strs, types) \<Rightarrow>
               (case metric_max_over_ground_truths M p strs of
                  Inl e \<Rightarrow> Inl e
                | Inr (sc, idx) \<Rightarrow>
                    (case (py_index types idx, py_index gts idx) of
                       (Inr t, Inr g) \<Rightarrow> Inr (sc, t, g)
                     | _ \<Rightarrow> Inl IndexError))))"

lemma call_selection:
  "call N M s p gts h =
     (case selection N M p gts of
        Inl e \<Rightarrow> (Inl e, s)
      | Inr (sc, t, g) \<Rightarrow> (Inr (sc, g), accumulate s sc t h))"
proof (cases "normalize_all N gts")
  case (Inl e)
  then show ?thesis by (simp add: call_def selection_def)
next
  case (Inr pairs)
  note n = this
  show ?thesis
  proof (cases "pairs = []")
    case True
    with n show ?thesis by (simp add: call_def selection_def unzip_pairs_def)
  next
    case False
    note ne = this
    show ?thesis
    proof (cases "metric_max_over_ground_truths M p (map fst pairs)")
      case (Inl e)
      with n ne show ?thesis by (simp add: call_def selection_def unzip_pairs_def)
    next
      case (Inr res)
      obtain em f1 pp r idx where res: "res = ((em, f1, pp, r), idx)"
        by (cases res) auto
      from Inr res have rng: "- 1 \<le> idx \<and> idx < int (length pairs)"
        using metric_max_index_range [of M p "map fst pairs" "(em, f1, pp, r)" idx] by simp
      have len: "length gts = length pairs"
        using n by (simp add: normalize_all_length)
      from rng ne obtain ty where ty: "py_index (map snd pairs) idx = Inr ty"
        using py_index_in_range [of idx "map snd pairs"] by auto
      from ne len have "gts \<noteq> []" by auto
      with rng len obtain g where g: "py_index gts idx = Inr g"
        using py_index_in_range [of idx gts] by auto
      from n ne Inr res ty g show ?thesis
        by (simp add: call_def selection_def unzip_pairs_def Let_def accumulate_def)
    qed
  qed
qed

lemma keys_ok_iff:
  assumes "wf2 (answer_type_head_count s)"
  shows "keys_ok s \<longleftrightarrow>
     (\<forall>t. map_of (answer_type_head_count s) t \<noteq> Some []) \<and>
     (\<forall>t h c. lookup2 (answer_type_head_count s) t h = Some c \<longrightarrow> cell_ok s t (h, c))"
proof -
  let ?cm = "answer_type_head_count s"
  have d: "distinct (map fst ?cm)" using assms by (simp add: wf2_def)
  have di: "\<And>t hcs. (t, hcs) \<in> set ?cm \<Longrightarrow> distinct (map fst hcs)"
    using assms by (force simp: wf2_def)
  have m: "\<And>t hcs. map_of ?cm t = Some hcs \<longleftrightarrow> (t, hcs) \<in> set ?cm"
    using d by simp
  show ?thesis
  proof
    assume k: "keys_ok s"
    show "(\<forall>t. map_of ?cm t \<noteq> Some []) \<and>
      (\<forall>t h c. lookup2 ?cm t h = Some c \<longrightarrow> cell_ok s t (h, c))"
    proof (intro conjI allI impI)
      fix t show "map_of ?cm t \<noteq> Some []"
        using k m [of t "[]"] by (auto simp: keys_ok_def)
    next
      fix t h c assume "lookup2 ?cm t h = Some c"
      then obtain hcs where 1: "map_of ?cm t = Some hcs" and 2: "map_of hcs h = Some c"
        by (auto simp: lookup2_def split: option.splits)
      from 1 have "(t, hcs) \<in> set ?cm" by (simp add: m)
      moreover from 2 have "(h, c) \<in> set hcs" by (rule map_of_SomeD)
      ultimately show "cell_ok s t (h, c)"
        using k by (force simp: keys_ok_def)
    qed
  next
    assume a: "(\<forall>t. map_of ?cm t \<noteq> Some []) \<and>
      (\<forall>t h c. lookup2 ?cm t h = Some c \<longrightarrow> cell_ok s t (h, c))"
    show "keys_ok s"
      unfolding keys_ok_def
    proof (intro ballI conjI)
      fix thc assume "thc \<in> set ?cm"
      then have "map_of ?cm (fst thc) = Some (snd thc)" using m [of "fst thc" "snd thc"] by simp
      with a show "snd thc \<noteq> []" by metis
    next
      fix thc hc assume i: "thc \<in> set ?cm" and j: "hc \<in> set (snd thc)"
      from i have 1: "map_of ?cm (fst thc) = Some (snd thc)" using m [of "fst thc" "snd thc"] by simp
      from i have "distinct (map fst (snd thc))" using di [of "fst thc" "snd thc"] by simp
      with j have "map_of (snd thc) (fst hc) = Some (snd hc)" by simp
      with 1 have "lookup2 ?cm (fst thc) (fst hc) = Some (snd hc)" by (simp add: lookup2_def)
      with a have "cell_ok s (fst thc) (fst hc, snd hc)" by blast
      then show "cell_ok s (fst thc) hc" by simp
    qed
  qed
qed

lemma map_of_dd2_iadd_nonempty: "map_of (dd2_iadd t h x m) t' = Some [] \<Longrightarrow> map_of m t' = Some []"
  by (auto simp: dd2_iadd_conv update_conv' split: if_splits)

lemma inv_accumulate:
  assumes "inv s"
  shows "inv (accumulate s sc t h)"
proof -
  let ?s = "accumulate s sc t h"
  let ?cm = "answer_type_head_count s"
  have wf: "wf2 (answer_type_head_em s)" "wf2 (answer_type_head_f1 s)"
     "wf2 (answer_type_head_p s)" "wf2 (answer_type_head_r s)" "wf2 ?cm"
    and k: "keys_ok s" and c: "total_count s = sum_cells ?cm"
    using assms by (simp_all add: inv_def)
  have wf': "wf2 (answer_type_head_em ?s)" "wf2 (answer_type_head_f1 ?s)"
     "wf2 (answer_type_head_p ?s)" "wf2 (answer_type_head_r ?s)" "wf2 (answer_type_head_count ?s)"
    using wf by (simp_all add: accumulate_def wf2_dd2_iadd)
  have c': "total_count ?s = sum_cells (answer_type_head_count ?s)"
    using c wf(5) by (simp add: accumulate_def sum_cells_dd2_iadd)
  from k wf(5) have k1: "\<And>t. map_of ?cm t \<noteq> Some []"
    and k2: "\<And>t h c. lookup2 ?cm t h = Some c \<Longrightarrow> cell_ok s t (h, c)"
    by (simp_all add: keys_ok_iff)
  have ge: "0 \<le> cell ?cm t h"
    using k2 [of t h] by (auto simp: cell_lookup2 cell_ok_def split: option.splits)
  have "keys_ok ?s"
    unfolding keys_ok_iff [OF wf'(5)]
  proof (intro conjI allI impI)
    fix t' show "map_of (answer_type_head_count ?s) t' \<noteq> Some []"
      using k1 [of t'] map_of_dd2_iadd_nonempty [of t h 1 ?cm t']
      by (auto simp: accumulate_def)
  next
    fix t' h' c'
    assume "lookup2 (answer_type_head_count ?s) t' h' = Some c'"
    then have l: "lookup2 (dd2_iadd t h 1 ?cm) t' h' = Some c'"
      by (simp add: accumulate_def)
    show "cell_ok ?s t' (h', c')"
    proof (cases "t' = t \<and> h' = h")
      case True
      with l ge show ?thesis
        by (simp add: lookup2_dd2_iadd cell_ok_def accumulate_def)
    next
      case False
      with l have "lookup2 ?cm t' h' = Some c'"
        by (simp add: lookup2_dd2_iadd split: if_splits)
      then have "cell_ok s t' (h', c')" by (rule k2)
      then show ?thesis
        by (simp add: cell_ok_def accumulate_def lookup2_dd2_iadd)
    qed
  qed
  with wf' c' show ?thesis by (simp add: inv_def)
qed

lemma inv_init: "inv init"
  by (simp add: inv_def init_def wf2_def keys_ok_def sum_cells_def)

lemma inv_reset: "inv (reset s)"
  by (simp add: inv_def reset_def wf2_def keys_ok_def sum_cells_def)

lemma inv_call: "inv s \<Longrightarrow> inv (snd (call N M s p gts h))"
  by (simp add: call_selection inv_accumulate split: sum.splits prod.splits)

section \<open>\<^verbatim>\<open>get_metric\<close> on a state that satisfies the invariant\<close>

text \<open>
  The view of one cell and of one answer type, from the accumulator: the sums divided
  by the count, and the count.
\<close>

definition cell_view :: "evaluator \<Rightarrow> string \<Rightarrow> string \<Rightarrow> int \<Rightarrow> rat list" where
  "cell_view s t h c =
     [cell (answer_type_head_em s) t h / of_int c, cell (answer_type_head_f1 s) t h / of_int c,
      cell (answer_type_head_p s) t h / of_int c, cell (answer_type_head_r s) t h / of_int c,
      of_int c]"

definition type_view :: "evaluator \<Rightarrow> string \<Rightarrow> (string \<times> int) list \<Rightarrow> rat list" where
  "type_view s t head_count =
     (let heads = map fst head_count; n = sum_list (map snd head_count)
      in [sum_list (map (cell (answer_type_head_em s) t) heads) / of_int n,
          sum_list (map (cell (answer_type_head_f1 s) t) heads) / of_int n,
          sum_list (map (cell (answer_type_head_p s) t) heads) / of_int n,
          sum_list (map (cell (answer_type_head_r s) t) heads) / of_int n,
          of_int n])"

text \<open>
  The bodies of the loops when no read stores a default and no division raises: the
  local variables change, the accumulator does not.
\<close>

definition inner_step :: "evaluator \<Rightarrow> string \<Rightarrow> string \<times> int \<Rightarrow> frame \<Rightarrow> frame" where
  "inner_step s t hc fr =
     fr\<lparr>type_count := type_count fr + snd hc,
        type_em := type_em fr + cell (answer_type_head_em s) t (fst hc),
        type_f1 := type_f1 fr + cell (answer_type_head_f1 s) t (fst hc),
        type_p := type_p fr + cell (answer_type_head_p s) t (fst hc),
        type_r := type_r fr + cell (answer_type_head_r s) t (fst hc),
        em_per_head := dd_iadd (fst hc) (cell (answer_type_head_em s) t (fst hc)) (em_per_head fr),
        f1_per_head := dd_iadd (fst hc) (cell (answer_type_head_f1 s) t (fst hc)) (f1_per_head fr),
        p_per_head := dd_iadd (fst hc) (cell (answer_type_head_p s) t (fst hc)) (p_per_head fr),
        r_per_head := dd_iadd (fst hc) (cell (answer_type_head_r s) t (fst hc)) (r_per_head fr),
        count_per_head := dd_iadd (fst hc) (snd hc) (count_per_head fr),
        scores_per_answer_type_and_head :=
          dd2_setitem t (fst hc) (cell_view s t (fst hc) (snd hc))
            (scores_per_answer_type_and_head fr)\<rparr>"

definition outer_step :: "evaluator \<Rightarrow> string \<times> (string \<times> int) list \<Rightarrow> frame \<Rightarrow> frame" where
  "outer_step s thc fr =
     (let fr1 = fold (inner_step s (fst thc)) (snd thc)
                  (fr\<lparr>type_count := 0, type_em := 0, type_f1 := 0, type_p := 0, type_r := 0\<rparr>)
      in fr1\<lparr>scores_per_answer_type :=
               AList.update (fst thc)
                 [type_em fr1 / of_int (type_count fr1), type_f1 fr1 / of_int (type_count fr1),
                  type_p fr1 / of_int (type_count fr1), type_r fr1 / of_int (type_count fr1),
                  of_int (type_count fr1)]
                 (scores_per_answer_type fr1)\<rparr>)"

lemma fold_err_Inr:
  assumes "\<And>x a. x \<in> set xs \<Longrightarrow> P a \<Longrightarrow> f x a = Inr (g x a) \<and> P (g x a)" and "P a"
  shows "fold_err f xs a = Inr (fold g xs a) \<and> P (fold g xs a)"
  using assms by (induction xs arbitrary: a) auto

lemma inner_body_step:
  assumes "self fr = s" and "cell_ok s t hc"
  shows "inner_body t hc fr = Inr (inner_step s t hc fr)"
proof -
  obtain h c where hc: "hc = (h, c)" by (cases hc)
  from assms(2) hc obtain em f1 p r where
    l: "lookup2 (answer_type_head_em s) t h = Some em" "lookup2 (answer_type_head_f1 s) t h = Some f1"
       "lookup2 (answer_type_head_p s) t h = Some p" "lookup2 (answer_type_head_r s) t h = Some r"
    and c: "c \<noteq> 0"
    by (auto simp: cell_ok_def)
  have g: "dd2_getitem t h (answer_type_head_em s) = (em, answer_type_head_em s)"
      "dd2_getitem t h (answer_type_head_f1 s) = (f1, answer_type_head_f1 s)"
      "dd2_getitem t h (answer_type_head_p s) = (p, answer_type_head_p s)"
      "dd2_getitem t h (answer_type_head_r s) = (r, answer_type_head_r s)"
    using l by (simp_all add: dd2_getitem_present)
  have v: "cell (answer_type_head_em s) t h = em" "cell (answer_type_head_f1 s) t h = f1"
      "cell (answer_type_head_p s) t h = p" "cell (answer_type_head_r s) t h = r"
    using l by (simp_all add: cell_present)
  show ?thesis
    using assms(1) c
    by (simp add: inner_body_def inner_step_def hc g v cell_view_def)
qed

lemma self_inner_step: "self (inner_step s t hc fr) = self fr"
  by (simp add: inner_step_def)

lemma self_fold_inner_step: "self (fold (inner_step s t) hcs fr) = self fr"
  by (induction hcs arbitrary: fr) (simp_all add: self_inner_step)

lemma type_count_fold_inner_step:
  "type_count (fold (inner_step s t) hcs fr) = type_count fr + sum_list (map snd hcs)"
  by (induction hcs arbitrary: fr) (simp_all add: inner_step_def)

lemma inner_loop_step:
  assumes "self fr = s" and "\<forall>hc\<in>set hcs. cell_ok s t hc"
  shows "fold_err (inner_body t) hcs fr = Inr (fold (inner_step s t) hcs fr)"
  using fold_err_Inr [of hcs "\<lambda>a. self a = s" "inner_body t" "inner_step s t" fr] assms
  by (simp add: inner_body_step self_inner_step)

lemma sum_list_ge1:
  fixes xs :: "int list"
  shows "xs \<noteq> [] \<Longrightarrow> \<forall>x\<in>set xs. 1 \<le> x \<Longrightarrow> 1 \<le> sum_list xs"
proof (induction xs)
  case Nil
  then show ?case by simp
next
  case (Cons x xs)
  have "0 \<le> sum_list xs"
  proof (cases "xs = []")
    case True
    then show ?thesis by simp
  next
    case False
    with Cons have "1 \<le> sum_list xs" by simp
    then show ?thesis by simp
  qed
  with Cons.prems show ?case by simp
qed

lemma outer_body_step:
  assumes "self fr = s" and "snd thc \<noteq> []" and "\<forall>hc\<in>set (snd thc). cell_ok s (fst thc) hc"
  shows "outer_body thc fr = Inr (outer_step s thc fr)"
proof -
  obtain t hcs where thc: "thc = (t, hcs)" by (cases thc)
  let ?fr0 = "fr\<lparr>type_count := 0, type_em := 0, type_f1 := 0, type_p := 0, type_r := 0\<rparr>"
  have "self ?fr0 = s" using assms(1) by simp
  with assms(3) thc have l: "fold_err (inner_body t) hcs ?fr0 = Inr (fold (inner_step s t) hcs ?fr0)"
    by (simp add: inner_loop_step)
  have "1 \<le> sum_list (map snd hcs)"
    using assms(2,3) thc by (intro sum_list_ge1) (auto simp: cell_ok_def)
  then have "type_count (fold (inner_step s t) hcs ?fr0) \<noteq> 0"
    by (simp add: type_count_fold_inner_step)
  with l thc show ?thesis
    by (simp add: outer_body_def outer_step_def Let_def)
qed

lemma self_outer_step: "self (outer_step s thc fr) = self fr"
  by (simp add: outer_step_def Let_def self_fold_inner_step)

lemma self_fold_outer_step: "self (fold (outer_step s) cm fr) = self fr"
  by (induction cm arbitrary: fr) (simp_all add: self_outer_step)

lemma outer_loop_step:
  assumes "self fr = s" and "\<forall>thc\<in>set cm. snd thc \<noteq> [] \<and> (\<forall>hc\<in>set (snd thc). cell_ok s (fst thc) hc)"
  shows "fold_err outer_body cm fr = Inr (fold (outer_step s) cm fr)"
  using fold_err_Inr [of cm "\<lambda>a. self a = s" outer_body "outer_step s" fr] assms
  by (simp add: outer_body_step self_outer_step)


text \<open>
  The frame at the start of the loops, the overall averages of lines 78 to 81, the
  frame after the two nested loops, and the four views.
\<close>

definition head_step :: "frame \<Rightarrow> string \<times> int \<Rightarrow> (string \<times> rat list) list \<Rightarrow> (string \<times> rat list) list" where
  "head_step fr hc acc =
     AList.update (fst hc)
       [lookup0 (em_per_head fr) (fst hc) / of_int (snd hc),
        lookup0 (f1_per_head fr) (fst hc) / of_int (snd hc),
        lookup0 (p_per_head fr) (fst hc) / of_int (snd hc),
        lookup0 (r_per_head fr) (fst hc) / of_int (snd hc),
        of_int (snd hc)]
       acc"

definition frame0 :: "evaluator \<Rightarrow> frame" where
  "frame0 s =
     \<lparr>self = s, scores_per_answer_type_and_head = [], scores_per_answer_type = [],
      em_per_head = [], f1_per_head = [], p_per_head = [], r_per_head = [],
      count_per_head = [], type_count = 0, type_em = 0, type_f1 = 0, type_p = 0, type_r = 0\<rparr>"

definition overall :: "evaluator \<Rightarrow> rat list" where
  "overall s =
     [if total_count s > 0 then total_em s / of_int (total_count s) else 0,
      if total_count s > 0 then total_f1 s / of_int (total_count s) else 0,
      if total_count s > 0 then total_p s / of_int (total_count s) else 0,
      if total_count s > 0 then total_r s / of_int (total_count s) else 0]"

definition summary_frame :: "evaluator \<Rightarrow> frame" where
  "summary_frame s = fold (outer_step s) (answer_type_head_count s) (frame0 s)"

definition views_of :: "evaluator \<Rightarrow> views" where
  "views_of s =
     (overall s, scores_per_answer_type_and_head (summary_frame s),
      scores_per_answer_type (summary_frame s),
      fold (head_step (summary_frame s)) (count_per_head (summary_frame s)) [])"

lemma fold_inner_step_fields:
  "type_em (fold (inner_step s t) hcs fr) =
     type_em fr + sum_list (map (cell (answer_type_head_em s) t) (map fst hcs))"
  "type_f1 (fold (inner_step s t) hcs fr) =
     type_f1 fr + sum_list (map (cell (answer_type_head_f1 s) t) (map fst hcs))"
  "type_p (fold (inner_step s t) hcs fr) =
     type_p fr + sum_list (map (cell (answer_type_head_p s) t) (map fst hcs))"
  "type_r (fold (inner_step s t) hcs fr) =
     type_r fr + sum_list (map (cell (answer_type_head_r s) t) (map fst hcs))"
  "scores_per_answer_type (fold (inner_step s t) hcs fr) = scores_per_answer_type fr"
  by (induction hcs arbitrary: fr) (simp_all add: inner_step_def)

lemma fold_inner_step_dicts:
  "em_per_head (fold (inner_step s t) hcs fr) =
     fold (\<lambda>hc. dd_iadd (fst hc) (cell (answer_type_head_em s) t (fst hc))) hcs (em_per_head fr)"
  "f1_per_head (fold (inner_step s t) hcs fr) =
     fold (\<lambda>hc. dd_iadd (fst hc) (cell (answer_type_head_f1 s) t (fst hc))) hcs (f1_per_head fr)"
  "p_per_head (fold (inner_step s t) hcs fr) =
     fold (\<lambda>hc. dd_iadd (fst hc) (cell (answer_type_head_p s) t (fst hc))) hcs (p_per_head fr)"
  "r_per_head (fold (inner_step s t) hcs fr) =
     fold (\<lambda>hc. dd_iadd (fst hc) (cell (answer_type_head_r s) t (fst hc))) hcs (r_per_head fr)"
  "count_per_head (fold (inner_step s t) hcs fr) =
     fold (\<lambda>hc. dd_iadd (fst hc) (snd hc)) hcs (count_per_head fr)"
  "scores_per_answer_type_and_head (fold (inner_step s t) hcs fr) =
     fold (\<lambda>hc. dd2_setitem t (fst hc) (cell_view s t (fst hc) (snd hc))) hcs
       (scores_per_answer_type_and_head fr)"
  by (induction hcs arbitrary: fr) (simp_all add: inner_step_def)

lemma cells_Cons:
  "cells ((t, hcs) # m) = map (\<lambda>hc. (t, fst hc, snd hc)) hcs @ cells m"
  by (simp add: cells_def split_def)

lemma scores_per_answer_type_outer_step:
  "scores_per_answer_type (outer_step s thc fr) =
     AList.update (fst thc) (type_view s (fst thc) (snd thc)) (scores_per_answer_type fr)"
  by (simp add: outer_step_def Let_def fold_inner_step_fields type_count_fold_inner_step
        type_view_def)

lemma fold_outer_step_type:
  "scores_per_answer_type (fold (outer_step s) cm fr) =
     fold (\<lambda>thc. AList.update (fst thc) (type_view s (fst thc) (snd thc))) cm
       (scores_per_answer_type fr)"
  by (induction cm arbitrary: fr) (simp_all add: scores_per_answer_type_outer_step)

lemma outer_step_dicts:
  "em_per_head (outer_step s thc fr) =
     fold (\<lambda>hc. dd_iadd (fst hc) (cell (answer_type_head_em s) (fst thc) (fst hc))) (snd thc)
       (em_per_head fr)"
  "f1_per_head (outer_step s thc fr) =
     fold (\<lambda>hc. dd_iadd (fst hc) (cell (answer_type_head_f1 s) (fst thc) (fst hc))) (snd thc)
       (f1_per_head fr)"
  "p_per_head (outer_step s thc fr) =
     fold (\<lambda>hc. dd_iadd (fst hc) (cell (answer_type_head_p s) (fst thc) (fst hc))) (snd thc)
       (p_per_head fr)"
  "r_per_head (outer_step s thc fr) =
     fold (\<lambda>hc. dd_iadd (fst hc) (cell (answer_type_head_r s) (fst thc) (fst hc))) (snd thc)
       (r_per_head fr)"
  "count_per_head (outer_step s thc fr) =
     fold (\<lambda>hc. dd_iadd (fst hc) (snd hc)) (snd thc) (count_per_head fr)"
  "scores_per_answer_type_and_head (outer_step s thc fr) =
     fold (\<lambda>hc. dd2_setitem (fst thc) (fst hc) (cell_view s (fst thc) (fst hc) (snd hc))) (snd thc)
       (scores_per_answer_type_and_head fr)"
  by (simp_all add: outer_step_def Let_def fold_inner_step_dicts)

lemma fold_outer_step_dicts:
  "em_per_head (fold (outer_step s) cm fr) =
     fold (\<lambda>(t, h, c). dd_iadd h (cell (answer_type_head_em s) t h)) (cells cm) (em_per_head fr)"
  "f1_per_head (fold (outer_step s) cm fr) =
     fold (\<lambda>(t, h, c). dd_iadd h (cell (answer_type_head_f1 s) t h)) (cells cm) (f1_per_head fr)"
  "p_per_head (fold (outer_step s) cm fr) =
     fold (\<lambda>(t, h, c). dd_iadd h (cell (answer_type_head_p s) t h)) (cells cm) (p_per_head fr)"
  "r_per_head (fold (outer_step s) cm fr) =
     fold (\<lambda>(t, h, c). dd_iadd h (cell (answer_type_head_r s) t h)) (cells cm) (r_per_head fr)"
  "count_per_head (fold (outer_step s) cm fr) =
     fold (\<lambda>(t, h, c). dd_iadd h c) (cells cm) (count_per_head fr)"
  "scores_per_answer_type_and_head (fold (outer_step s) cm fr) =
     fold (\<lambda>(t, h, c). dd2_setitem t h (cell_view s t h c)) (cells cm)
       (scores_per_answer_type_and_head fr)"
proof (induction cm arbitrary: fr)
  case Nil
  case 1 show ?case by (simp add: cells_def)
  case 2 show ?case by (simp add: cells_def)
  case 3 show ?case by (simp add: cells_def)
  case 4 show ?case by (simp add: cells_def)
  case 5 show ?case by (simp add: cells_def)
  case 6 show ?case by (simp add: cells_def)
next
  case (Cons a cm)
  obtain t hcs where a: "a = (t, hcs)" by (cases a)
  case 1 show ?case by (simp add: a Cons cells_Cons outer_step_dicts fold_map comp_def split_def)
  case 2 show ?case by (simp add: a Cons cells_Cons outer_step_dicts fold_map comp_def split_def)
  case 3 show ?case by (simp add: a Cons cells_Cons outer_step_dicts fold_map comp_def split_def)
  case 4 show ?case by (simp add: a Cons cells_Cons outer_step_dicts fold_map comp_def split_def)
  case 5 show ?case by (simp add: a Cons cells_Cons outer_step_dicts fold_map comp_def split_def)
  case 6 show ?case by (simp add: a Cons cells_Cons outer_step_dicts fold_map comp_def split_def)
qed


lemma set_cells:
  "set (cells m) = {(t, h, c). \<exists>hcs. (t, hcs) \<in> set m \<and> (h, c) \<in> set hcs}"
  by (auto simp: cells_def)

lemma keys_ok_cells:
  "keys_ok s \<Longrightarrow> (t, h, c) \<in> set (cells (answer_type_head_count s)) \<Longrightarrow> cell_ok s t (h, c)"
  by (force simp: keys_ok_def set_cells)

lemma lookup0_ge0:
  fixes m :: "('k \<times> int) list"
  shows "\<forall>kv\<in>set m. 1 \<le> snd kv \<Longrightarrow> 0 \<le> lookup0 m k"
  by (auto simp: lookup0_def split: option.splits dest!: map_of_SomeD)

lemma dd_iadd_ge1:
  fixes m :: "('k \<times> int) list"
  assumes "\<forall>kv\<in>set m. 1 \<le> snd kv" and "1 \<le> x"
  shows "\<forall>kv\<in>set (dd_iadd k x m). 1 \<le> snd kv"
proof
  fix kv assume "kv \<in> set (dd_iadd k x m)"
  then have "kv = (k, lookup0 m k + x) \<or> kv \<in> set m"
    using set_update_subset [of k "lookup0 m k + x" m] by (auto simp: dd_iadd_conv)
  moreover have "0 \<le> lookup0 m k" using assms(1) by (rule lookup0_ge0)
  ultimately show "1 \<le> snd kv" using assms by auto
qed

lemma fold_dd_iadd_ge1:
  fixes m :: "('k \<times> int) list"
  shows "\<forall>x\<in>set xs. 1 \<le> vf x \<Longrightarrow> \<forall>kv\<in>set m. 1 \<le> snd kv \<Longrightarrow>
         \<forall>kv\<in>set (fold (\<lambda>x. dd_iadd (kf x) (vf x)) xs m). 1 \<le> snd kv"
proof (induction xs arbitrary: m)
  case Nil
  then show ?case by simp
next
  case (Cons x xs)
  have "\<forall>kv\<in>set (dd_iadd (kf x) (vf x) m). 1 \<le> snd kv"
    using Cons.prems by (intro dd_iadd_ge1) auto
  with Cons show ?case by simp
qed

lemma count_per_head_ge1:
  assumes "keys_ok s"
  shows "\<forall>hc\<in>set (count_per_head (summary_frame s)). 1 \<le> snd hc"
proof -
  have "\<forall>x\<in>set (cells (answer_type_head_count s)). 1 \<le> (\<lambda>(t, h, c). c) x"
    using keys_ok_cells [OF assms] by (auto simp: cell_ok_def)
  then have "\<forall>kv\<in>set (fold (\<lambda>x. dd_iadd ((\<lambda>(t, h, c). h) x) ((\<lambda>(t, h, c). c) x))
      (cells (answer_type_head_count s)) []). 1 \<le> snd kv"
    by (intro fold_dd_iadd_ge1) simp_all
  then show ?thesis
    by (simp add: summary_frame_def fold_outer_step_dicts frame0_def split_def)
qed

lemma head_body_step: "snd hc \<noteq> 0 \<Longrightarrow> head_body fr hc acc = Inr (head_step fr hc acc)"
  by (cases hc) (simp add: head_body_def head_step_def)

lemma head_loop_step:
  assumes "\<forall>hc\<in>set hcs. snd hc \<noteq> 0"
  shows "fold_err (head_body fr) hcs acc = Inr (fold (head_step fr) hcs acc)"
  using fold_err_Inr [of hcs "\<lambda>a. True" "head_body fr" "head_step fr" acc] assms
  by (simp add: head_body_step)

lemma get_metric_inv:
  assumes "inv s"
  shows "get_metric s r = (Inr (views_of s), if r then reset s else s)"
proof -
  have k: "keys_ok s" using assms by (simp add: inv_def)
  have o: "fold_err outer_body (answer_type_head_count s) (frame0 s) = Inr (summary_frame s)"
    unfolding summary_frame_def
    using k by (intro outer_loop_step) (simp_all add: frame0_def keys_ok_def)
  have "\<forall>hc\<in>set (count_per_head (summary_frame s)). snd hc \<noteq> 0"
    using count_per_head_ge1 [OF k] by auto
  then have h: "fold_err (head_body (summary_frame s)) (count_per_head (summary_frame s)) [] =
      Inr (fold (head_step (summary_frame s)) (count_per_head (summary_frame s)) [])"
    by (rule head_loop_step)
  have self: "self (summary_frame s) = s"
    by (simp add: summary_frame_def self_fold_outer_step frame0_def)
  show ?thesis
    using o h self
    by (simp add: get_metric_def Let_def frame0_def [symmetric] views_of_def overall_def)
qed

section \<open>Runs of the accumulator\<close>

text \<open>
  The operations of the accumulator, the state after one of them, and the state after
  a sequence of them from construction.
\<close>

datatype ('p, 'a) operation = Call 'p "'a list" string | GetMetric bool | Reset

definition exec ::
  "('a \<Rightarrow> error + string list \<times> string) \<Rightarrow> ('p \<Rightarrow> string list \<Rightarrow> error + score) \<Rightarrow>
     ('p, 'a) operation \<Rightarrow> evaluator \<Rightarrow> evaluator" where
  "exec N M op s =
     (case op of
        Call prediction ground_truths predicted_ability \<Rightarrow>
          snd (call N M s prediction ground_truths predicted_ability)
      | GetMetric reset_flag \<Rightarrow> snd (get_metric s reset_flag)
      | Reset \<Rightarrow> reset s)"

definition run ::
  "('a \<Rightarrow> error + string list \<times> string) \<Rightarrow> ('p \<Rightarrow> string list \<Rightarrow> error + score) \<Rightarrow>
     ('p, 'a) operation list \<Rightarrow> evaluator" where
  "run N M ops = fold (exec N M) ops init"

text \<open>
  The run with a counter beside the accumulator: the number of calls of
  \<^verbatim>\<open>call\<close> that returned since construction or the last reset.
\<close>

definition tally ::
  "('a \<Rightarrow> error + string list \<times> string) \<Rightarrow> ('p \<Rightarrow> string list \<Rightarrow> error + score) \<Rightarrow>
     ('p, 'a) operation \<Rightarrow> evaluator \<times> int \<Rightarrow> evaluator \<times> int" where
  "tally N M op sn =
     (case sn of (s, n) \<Rightarrow>
     (case op of
        Call prediction ground_truths predicted_ability \<Rightarrow>
          (case call N M s prediction ground_truths predicted_ability of
             (Inl e, s') \<Rightarrow> (s', n)
           | (Inr result, s') \<Rightarrow> (s', n + 1))
      | GetMetric reset_flag \<Rightarrow>
          (case get_metric s reset_flag of
             (Inl e, s') \<Rightarrow> (s', n)
           | (Inr result, s') \<Rightarrow> (s', if reset_flag then 0 else n))
      | Reset \<Rightarrow> (reset s, 0)))"

text \<open>
  A sum divided by a count, 0 when the count is not positive; and the overall view as
  the specification states it, with the count as a fifth component.
\<close>

definition mean :: "rat \<Rightarrow> int \<Rightarrow> rat" where
  "mean x n = (if n > 0 then x / of_int n else 0)"

definition stated_overall :: "evaluator \<Rightarrow> rat list" where
  "stated_overall s =
     [mean (total_em s) (total_count s), mean (total_f1 s) (total_count s),
      mean (total_p s) (total_count s), mean (total_r s) (total_count s),
      of_int (total_count s)]"

lemma inv_get_metric: "inv s \<Longrightarrow> inv (snd (get_metric s r))"
  by (simp add: get_metric_inv inv_reset)

lemma inv_exec: "inv s \<Longrightarrow> inv (exec N M op s)"
  by (cases op) (simp_all add: exec_def inv_call inv_get_metric inv_reset)

lemma inv_fold_exec: "inv s \<Longrightarrow> inv (fold (exec N M) ops s)"
  by (induction ops arbitrary: s) (simp_all add: inv_exec)

lemma inv_run: "inv (run N M ops)"
  by (simp add: run_def inv_fold_exec inv_init)

lemma total_count_accumulate: "total_count (accumulate s sc t h) = total_count s + 1"
  by (simp add: accumulate_def)

lemma total_count_reset: "total_count (reset s) = 0"
  by (simp add: reset_def)

lemma tally_step:
  assumes "inv s" and "total_count s = n" and "tally N M op (s, n) = (s', n')"
  shows "inv s' \<and> total_count s' = n'"
proof (cases op)
  case (Call p gts h)
  show ?thesis
  proof (cases "selection N M p gts")
    case (Inl e)
    with Call assms show ?thesis by (simp add: tally_def call_selection)
  next
    case (Inr x)
    obtain sc t g where "x = (sc, t, g)" by (cases x)
    with Inr Call assms show ?thesis
      by (auto simp: tally_def call_selection inv_accumulate total_count_accumulate)
  qed
next
  case (GetMetric r)
  with assms show ?thesis
    by (auto simp: tally_def get_metric_inv inv_reset total_count_reset split: if_splits)
next
  case Reset
  with assms show ?thesis by (auto simp: tally_def inv_reset total_count_reset)
qed

lemma tally_fold:
  "inv s \<Longrightarrow> total_count s = n \<Longrightarrow> fold (tally N M) ops (s, n) = (s', n') \<Longrightarrow>
     inv s' \<and> total_count s' = n'"
proof (induction ops arbitrary: s n)
  case Nil
  then show ?case by simp
next
  case (Cons op ops)
  obtain s1 n1 where 1: "tally N M op (s, n) = (s1, n1)" by (cases "tally N M op (s, n)")
  with Cons.prems have "inv s1 \<and> total_count s1 = n1" by (intro tally_step [of s n N M op]) auto
  moreover from Cons.prems 1 have "fold (tally N M) ops (s1, n1) = (s', n')" by simp
  ultimately show ?case using Cons.IH [of s1 n1] by simp
qed

text \<open>
  C4. After any sequence of operations from construction, the top-level count is the
  number of calls that returned since construction or the last reset, it is the sum of
  the cells of the count dictionary, and every cell of the count dictionary has a
  count of at least 1 and an entry in each of the four value dictionaries. The
  invariant is preserved by \<^verbatim>\<open>call\<close>, \<^verbatim>\<open>get_metric\<close> and
  \<^verbatim>\<open>reset\<close>.
\<close>

theorem count_invariant:
  "(fold (tally N M) ops (init, 0) = (s, n) \<longrightarrow>
      total_count s = n \<and> total_count s = sum_cells (answer_type_head_count s) \<and> keys_ok s) \<and>
   (inv s' \<longrightarrow>
      inv (snd (call N M s' prediction ground_truths predicted_ability)) \<and>
      inv (snd (get_metric s' reset_flag)) \<and> inv (reset s'))"
proof (intro conjI impI)
  assume a: "fold (tally N M) ops (init, 0) = (s, n)"
  have "inv s \<and> total_count s = n"
    using inv_init _ a by (rule tally_fold) (simp add: init_def)
  then show "total_count s = n" "total_count s = sum_cells (answer_type_head_count s)" "keys_ok s"
    by (simp_all add: inv_def)
next
  assume "inv s'"
  then show "inv (snd (call N M s' prediction ground_truths predicted_ability))"
    "inv (snd (get_metric s' reset_flag))" "inv (reset s')"
    by (simp_all add: inv_call inv_get_metric inv_reset)
qed

text \<open>
  C5, as amended. The overall view that \<^verbatim>\<open>get_metric\<close> returns has four
  components: the four top-level sums, each divided by the top-level count, and 0 when
  the count is not positive.
\<close>

theorem overall_view_is_four_means:
  assumes "get_metric s reset_flag = (Inr (ov, v1, v2, v3), s')"
  shows "ov = [mean (total_em s) (total_count s), mean (total_f1 s) (total_count s),
               mean (total_p s) (total_count s), mean (total_r s) (total_count s)]"
  using assms
  by (auto simp: get_metric_def Let_def mean_def split: sum.splits prod.splits)

text \<open>
  C7. In every state that a sequence of operations reaches from construction,
  \<^verbatim>\<open>get_metric\<close> returns its views and raises nothing: every count of a cell,
  every total of an answer type and every total of a head that it divides by is at
  least 1.
\<close>

theorem get_metric_never_divides_by_zero:
  "get_metric (run N M ops) reset_flag =
     (Inr (views_of (run N M ops)), if reset_flag then reset (run N M ops) else run N M ops) \<and>
   (\<forall>thc\<in>set (answer_type_head_count (run N M ops)).
      1 \<le> sum_list (map snd (snd thc)) \<and> (\<forall>hc\<in>set (snd thc). 1 \<le> snd hc)) \<and>
   (\<forall>hc\<in>set (count_per_head (summary_frame (run N M ops))). 1 \<le> snd hc)"
proof -
  let ?s = "run N M ops"
  have i: "inv ?s" by (rule inv_run)
  then have k: "keys_ok ?s" by (simp add: inv_def)
  have "\<forall>thc\<in>set (answer_type_head_count ?s).
      1 \<le> sum_list (map snd (snd thc)) \<and> (\<forall>hc\<in>set (snd thc). 1 \<le> snd hc)"
  proof
    fix thc assume "thc \<in> set (answer_type_head_count ?s)"
    with k have 1: "snd thc \<noteq> []" and 2: "\<forall>hc\<in>set (snd thc). 1 \<le> snd hc"
      by (auto simp: keys_ok_def cell_ok_def)
    from 1 2 have "1 \<le> sum_list (map snd (snd thc))" by (intro sum_list_ge1) auto
    with 2 show "1 \<le> sum_list (map snd (snd thc)) \<and> (\<forall>hc\<in>set (snd thc). 1 \<le> snd hc)" by simp
  qed
  with get_metric_inv [OF i] count_per_head_ge1 [OF k] show ?thesis by simp
qed


subsection \<open>An example run\<close>

text \<open>
  Two examples are scored, \<open>(1, 1, 1, 1)\<close> for a number by the counting head and
  \<open>(0, 1/2, 1/2, 1/2)\<close> for a span by the span head; between them a call with no
  ground truth raises, and \<^verbatim>\<open>get_metric\<close> is called.
\<close>

definition score_half :: "string \<Rightarrow> string list \<Rightarrow> error + score" where
  "score_half p g = (if g = [p] then Inr (1, 1, 1, 1) else Inr (0, 1/2, 1/2, 1/2))"

definition example_ops :: "(string, string list \<times> string) operation list" where
  "example_ops =
     [Call ''3'' [([''3''], ''number'')] ''count_head'',
      Call ''3'' [] ''count_head'',
      GetMetric False,
      Call ''x'' [([''x y''], ''span'')] ''span_head'']"

definition example_state :: evaluator where
  "example_state =
     \<lparr>total_em = 1, total_f1 = 3/2, total_p = 3/2, total_r = 3/2, total_count = 2,
      answer_type_head_em = [(''number'', [(''count_head'', 1)]), (''span'', [(''span_head'', 0)])],
      answer_type_head_f1 = [(''number'', [(''count_head'', 1)]), (''span'', [(''span_head'', 1/2)])],
      answer_type_head_p = [(''number'', [(''count_head'', 1)]), (''span'', [(''span_head'', 1/2)])],
      answer_type_head_r = [(''number'', [(''count_head'', 1)]), (''span'', [(''span_head'', 1/2)])],
      answer_type_head_count = [(''number'', [(''count_head'', 1)]), (''span'', [(''span_head'', 1)])]\<rparr>"

lemma example_tally: "fold (tally Inr score_half) example_ops (init, 0) = (example_state, 2)"
  by code_simp

lemma example_run: "run Inr score_half example_ops = example_state"
  by code_simp

lemma example_get_metric:
  "get_metric example_state False =
     (Inr ([1/2, 3/4, 3/4, 3/4],
           [(''number'', [(''count_head'', [1, 1, 1, 1, 1])]),
            (''span'', [(''span_head'', [0, 1/2, 1/2, 1/2, 1])])],
           [(''number'', [1, 1, 1, 1, 1]), (''span'', [0, 1/2, 1/2, 1/2, 1])],
           [(''count_head'', [1, 1, 1, 1, 1]), (''span_head'', [0, 1/2, 1/2, 1/2, 1])]),
      example_state)"
  by code_simp

theorem count_invariant_witness:
  "total_count example_state = 2 \<and>
   total_count example_state = sum_cells (answer_type_head_count example_state) \<and>
   keys_ok example_state \<and>
   inv (snd (call Inr score_half init ''3'' [([''3''], ''number'')] ''count_head'')) \<and>
   inv (snd (get_metric init True)) \<and> inv (reset init)"
  using count_invariant [of Inr score_half example_ops example_state 2 init "''3''"
      "[([''3''], ''number'')]" "''count_head''" True]
    example_tally inv_init
  by blast


theorem overall_view_is_four_means_witness:
  "[mean (total_em example_state) (total_count example_state),
    mean (total_f1 example_state) (total_count example_state),
    mean (total_p example_state) (total_count example_state),
    mean (total_r example_state) (total_count example_state)] = [1/2, 3/4, 3/4, 3/4]"
  using overall_view_is_four_means [OF example_get_metric] by simp

text \<open>
  C5 as stated fails: after the example run the overall view is the four averages,
  with no count as a fifth component.
\<close>

theorem overall_view_has_no_support_count_counterexample:
  "fst (get_metric example_state False) =
     Inr ([1/2, 3/4, 3/4, 3/4],
          [(''number'', [(''count_head'', [1, 1, 1, 1, 1])]),
           (''span'', [(''span_head'', [0, 1/2, 1/2, 1/2, 1])])],
          [(''number'', [1, 1, 1, 1, 1]), (''span'', [0, 1/2, 1/2, 1/2, 1])],
          [(''count_head'', [1, 1, 1, 1, 1]), (''span_head'', [0, 1/2, 1/2, 1/2, 1])]) \<and>
   stated_overall example_state = [1/2, 3/4, 3/4, 3/4, 2]"
proof -
  have "stated_overall example_state = [1/2, 3/4, 3/4, 3/4, 2]"
    by code_simp
  then show ?thesis by (simp add: example_get_metric)
qed

theorem get_metric_never_divides_by_zero_witness:
  "get_metric (run Inr score_half example_ops) False =
     (Inr (views_of example_state), example_state) \<and>
   1 \<le> sum_list (map snd [(''count_head'', 1 :: int)])"
  using get_metric_never_divides_by_zero [of Inr score_half example_ops False]
  by (simp add: example_run)

section \<open>The breakdown views\<close>

text \<open>
  The view of one head, from the accumulator: over the cells of the count dictionary
  with that head, the sums of the four values divided by the sum of the counts, and
  the sum of the counts.
\<close>

definition head_view :: "evaluator \<Rightarrow> string \<Rightarrow> rat list" where
  "head_view s h =
     (let cs = filter (\<lambda>(t, h', c). h' = h) (cells (answer_type_head_count s));
          n = sum_list (map (\<lambda>(t, h', c). c) cs)
      in [sum_list (map (\<lambda>(t, h', c). cell (answer_type_head_em s) t h') cs) / of_int n,
          sum_list (map (\<lambda>(t, h', c). cell (answer_type_head_f1 s) t h') cs) / of_int n,
          sum_list (map (\<lambda>(t, h', c). cell (answer_type_head_p s) t h') cs) / of_int n,
          sum_list (map (\<lambda>(t, h', c). cell (answer_type_head_r s) t h') cs) / of_int n,
          of_int n])"

lemma map_of_fold_update:
  "distinct (map fst kvs) \<Longrightarrow>
   map_of (fold (\<lambda>kv. AList.update (fst kv) (f kv)) kvs acc) k =
     (case map_of kvs k of Some v \<Rightarrow> Some (f (k, v)) | None \<Rightarrow> map_of acc k)"
proof (induction kvs arbitrary: acc)
  case Nil
  show ?case by simp
next
  case (Cons kv kvs)
  obtain k' v' where kv: "kv = (k', v')" by (cases kv)
  from Cons.prems kv have "map_of kvs k' = None"
    by (simp add: map_of_eq_None_iff)
  with Cons kv show ?case
    by (auto simp: update_conv' split: option.splits)
qed

lemma distinct_fold_update:
  "distinct (map fst acc) \<Longrightarrow> distinct (map fst (fold (\<lambda>kv. AList.update (kf kv) (f kv)) kvs acc))"
  by (induction kvs arbitrary: acc) (simp_all add: distinct_update)

lemma filter_key_empty: "k \<notin> kf ` set xs \<Longrightarrow> filter (\<lambda>x. kf x = k) xs = []"
  by (auto simp: filter_empty_conv)

lemma map_of_fold_dd_iadd:
  fixes acc :: "('k \<times> 'v::comm_monoid_add) list"
  shows "map_of (fold (\<lambda>x. dd_iadd (kf x) (vf x)) xs acc) k =
     (if k \<in> kf ` set xs
      then Some (lookup0 acc k + sum_list (map vf (filter (\<lambda>x. kf x = k) xs)))
      else map_of acc k)"
proof (induction xs arbitrary: acc)
  case Nil
  show ?case by simp
next
  case (Cons x xs)
  let ?acc = "dd_iadd (kf x) (vf x) acc"
  have l: "lookup0 ?acc k = (if kf x = k then lookup0 acc k + vf x else lookup0 acc k)"
    by (simp add: dd_iadd_conv lookup0_def update_conv')
  have m: "map_of ?acc k = (if kf x = k then Some (lookup0 acc k + vf x) else map_of acc k)"
    by (auto simp: dd_iadd_conv update_conv')
  have IH: "map_of (fold (\<lambda>x. dd_iadd (kf x) (vf x)) xs ?acc) k =
     (if k \<in> kf ` set xs
      then Some (lookup0 ?acc k + sum_list (map vf (filter (\<lambda>x. kf x = k) xs)))
      else map_of ?acc k)"
    by (rule Cons.IH)
  show ?case
  proof (cases "kf x = k")
    case True
    note eq = this
    show ?thesis
    proof (cases "k \<in> kf ` set xs")
      case True
      with eq IH l show ?thesis by (simp add: add.assoc)
    next
      case False
      then have "filter (\<lambda>x. kf x = k) xs = []" by (rule filter_key_empty)
      with False eq IH m show ?thesis by simp
    qed
  next
    case False
    with IH l m show ?thesis by auto
  qed
qed

lemma lookup0_fold_dd_iadd:
  fixes vf :: "'x \<Rightarrow> 'v::comm_monoid_add"
  shows "lookup0 (fold (\<lambda>x. dd_iadd (kf x) (vf x)) xs []) k =
     sum_list (map vf (filter (\<lambda>x. kf x = k) xs))"
proof (cases "k \<in> kf ` set xs")
  case True
  with map_of_fold_dd_iadd [of kf vf xs "[]" k]
  have "map_of (fold (\<lambda>x. dd_iadd (kf x) (vf x)) xs []) k =
      Some (sum_list (map vf (filter (\<lambda>x. kf x = k) xs)))"
    by (simp add: lookup0_def)
  then show ?thesis by (simp add: lookup0_def)
next
  case False
  then have e: "filter (\<lambda>x. kf x = k) xs = []" by (rule filter_key_empty)
  from False map_of_fold_dd_iadd [of kf vf xs "[]" k]
  have "map_of (fold (\<lambda>x. dd_iadd (kf x) (vf x)) xs []) k = None" by simp
  with e show ?thesis by (simp add: lookup0_def)
qed

lemma distinct_dd_iadd: "distinct (map fst m) \<Longrightarrow> distinct (map fst (dd_iadd k x m))"
  by (simp add: dd_iadd_conv distinct_update)

lemma distinct_fold_dd_iadd:
  "distinct (map fst acc) \<Longrightarrow> distinct (map fst (fold (\<lambda>x. dd_iadd (kf x) (vf x)) xs acc))"
  by (induction xs arbitrary: acc) (simp_all add: distinct_dd_iadd)

text \<open>The pair of keys of a cell.\<close>

definition cell_key :: "'k \<times> 'h \<times> 'v \<Rightarrow> 'k \<times> 'h" where
  "cell_key x = (fst x, fst (snd x))"

lemma lookup2_fold_dd2_setitem:
  "distinct (map cell_key xs) \<Longrightarrow>
   lookup2 (fold (\<lambda>x. dd2_setitem (fst x) (fst (snd x)) (f x)) xs acc) t h =
     (case map_of (map (\<lambda>x. (cell_key x, x)) xs) (t, h) of
        Some x \<Rightarrow> Some (f x) | None \<Rightarrow> lookup2 acc t h)"
proof (induction xs arbitrary: acc)
  case Nil
  show ?case by simp
next
  case (Cons x xs)
  have n: "map_of (map (\<lambda>x. (cell_key x, x)) xs) (cell_key x) = None"
    using Cons.prems by (simp add: map_of_eq_None_iff image_image)
  from Cons.prems have d: "distinct (map cell_key xs)" by simp
  show ?case
  proof (cases "cell_key x = (t, h)")
    case True
    with n have "map_of (map (\<lambda>x. (cell_key x, x)) xs) (t, h) = None" by simp
    with True show ?thesis
      by (simp add: Cons.IH [OF d] lookup2_dd2_setitem cell_key_def)
  next
    case False
    then show ?thesis
      by (auto simp: Cons.IH [OF d] lookup2_dd2_setitem cell_key_def split: option.splits)
  qed
qed

lemma wf2_fold_dd2_setitem:
  "wf2 acc \<Longrightarrow> wf2 (fold (\<lambda>x. dd2_setitem (fst x) (fst (snd x)) (f x)) xs acc)"
  by (induction xs arbitrary: acc) (simp_all add: wf2_dd2_setitem)

lemma cells_Cons_Pair: "cells ((t, hcs) # m) = map (Pair t) hcs @ cells m"
  by (simp add: cells_def)

lemma map_of_block:
  "map_of (map (\<lambda>x. (cell_key x, x)) (map (Pair t') hcs)) (t, h) =
     (if t = t' then map_option (\<lambda>c. (t, h, c)) (map_of hcs h) else None)"
  by (induction hcs) (auto simp: cell_key_def)

lemma map_of_cells:
  "distinct (map fst m) \<Longrightarrow>
   map_of (map (\<lambda>x. (cell_key x, x)) (cells m)) (t, h) =
     map_option (\<lambda>c. (t, h, c)) (lookup2 m t h)"
proof (induction m)
  case Nil
  show ?case by (simp add: cells_def lookup2_def)
next
  case (Cons a m)
  obtain t' hcs where a: "a = (t', hcs)" by (cases a)
  from Cons.prems a have "t' \<notin> fst ` set m" by simp
  then have none: "map_of m t' = None" by (simp add: map_of_eq_None_iff)
  from Cons.prems have IH: "map_of (map (\<lambda>x. (cell_key x, x)) (cells m)) (t, h) =
      map_option (\<lambda>c. (t, h, c)) (lookup2 m t h)"
    by (intro Cons.IH) simp
  have split: "map_of (map (\<lambda>x. (cell_key x, x)) (cells (a # m))) (t, h) =
      (case map_of (map (\<lambda>x. (cell_key x, x)) (map (Pair t') hcs)) (t, h) of
         None \<Rightarrow> map_of (map (\<lambda>x. (cell_key x, x)) (cells m)) (t, h)
       | Some x \<Rightarrow> Some x)"
    unfolding a cells_Cons_Pair map_append map_of_append map_add_def
    by (simp split: option.splits)
  show ?case
  proof (cases "t = t'")
    case True
    with none have "lookup2 m t h = None" by (simp add: lookup2_def)
    with True show ?thesis
      unfolding split map_of_block IH
      by (simp add: a lookup2_def split: option.splits)
  next
    case False
    then show ?thesis
      unfolding split map_of_block IH
      by (simp add: a lookup2_def)
  qed
qed

lemma distinct_cells:
  assumes "wf2 m"
  shows "distinct (map cell_key (cells m))"
  using assms
proof (induction m)
  case Nil
  show ?case by (simp add: cells_def)
next
  case (Cons a m)
  obtain t' hcs where a: "a = (t', hcs)" by (cases a)
  from Cons.prems a have w: "wf2 m" and d: "distinct (map fst hcs)" and n: "t' \<notin> fst ` set m"
    by (auto simp: wf2_def)
  have 1: "map cell_key (map (Pair t') hcs) = map (Pair t') (map fst hcs)"
    by (simp add: cell_key_def)
  have 2: "distinct (map (Pair t') (map fst hcs))"
    using d by (simp add: distinct_map inj_on_def)
  have 3: "fst ` set (map cell_key (cells m)) \<subseteq> fst ` set m"
    by (force simp: set_cells cell_key_def)
  have "set (map (Pair t') (map fst hcs)) \<inter> set (map cell_key (cells m)) = {}"
  proof (rule ccontr)
    assume "set (map (Pair t') (map fst hcs)) \<inter> set (map cell_key (cells m)) \<noteq> {}"
    then obtain p where p1: "p \<in> set (map (Pair t') (map fst hcs))"
      and p2: "p \<in> set (map cell_key (cells m))" by blast
    from p1 have "fst p = t'" by auto
    moreover from p2 have "fst p \<in> fst ` set (map cell_key (cells m))" by (rule imageI)
    ultimately show False using n 3 by auto
  qed
  with 2 Cons.IH [OF w] show ?case
    unfolding a cells_Cons_Pair map_append 1 by (simp only: distinct_append)
qed


text \<open>The heads that occur in the count dictionary.\<close>

definition observed_heads :: "evaluator \<Rightarrow> string set" where
  "observed_heads s = (\<lambda>x. fst (snd x)) ` set (cells (answer_type_head_count s))"

lemma spath_summary:
  assumes "wf2 (answer_type_head_count s)"
  shows "lookup2 (scores_per_answer_type_and_head (summary_frame s)) t h =
           map_option (cell_view s t h) (lookup2 (answer_type_head_count s) t h)"
    and "wf2 (scores_per_answer_type_and_head (summary_frame s))"
proof -
  let ?cm = "answer_type_head_count s"
  let ?f = "\<lambda>x. cell_view s (fst x) (fst (snd x)) (snd (snd x))"
  have eq: "scores_per_answer_type_and_head (summary_frame s) =
      fold (\<lambda>x. dd2_setitem (fst x) (fst (snd x)) (?f x)) (cells ?cm) []"
    by (simp add: summary_frame_def fold_outer_step_dicts frame0_def split_def)
  have d: "distinct (map cell_key (cells ?cm))" using assms by (rule distinct_cells)
  have o: "distinct (map fst ?cm)" using assms by (simp add: wf2_def)
  show "lookup2 (scores_per_answer_type_and_head (summary_frame s)) t h =
           map_option (cell_view s t h) (lookup2 ?cm t h)"
    unfolding eq lookup2_fold_dd2_setitem [OF d] map_of_cells [OF o]
    by (cases "lookup2 ?cm t h") (simp_all add: lookup2_def)
  have "wf2 ([] :: (string \<times> (string \<times> rat list) list) list)" by (simp add: wf2_def)
  then show "wf2 (scores_per_answer_type_and_head (summary_frame s))"
    unfolding eq by (rule wf2_fold_dd2_setitem)
qed

lemma spat_summary:
  assumes "wf2 (answer_type_head_count s)"
  shows "map_of (scores_per_answer_type (summary_frame s)) t =
           map_option (type_view s t) (map_of (answer_type_head_count s) t)"
    and "distinct (map fst (scores_per_answer_type (summary_frame s)))"
proof -
  let ?cm = "answer_type_head_count s"
  have eq: "scores_per_answer_type (summary_frame s) =
      fold (\<lambda>thc. AList.update (fst thc) (type_view s (fst thc) (snd thc))) ?cm []"
    by (simp add: summary_frame_def fold_outer_step_type frame0_def)
  have o: "distinct (map fst ?cm)" using assms by (simp add: wf2_def)
  show "map_of (scores_per_answer_type (summary_frame s)) t =
           map_option (type_view s t) (map_of ?cm t)"
    unfolding eq map_of_fold_update [OF o]
    by (cases "map_of ?cm t") simp_all
  show "distinct (map fst (scores_per_answer_type (summary_frame s)))"
    unfolding eq by (rule distinct_fold_update) simp
qed

lemma per_head_sums:
  "lookup0 (em_per_head (summary_frame s)) h =
     sum_list (map (\<lambda>x. cell (answer_type_head_em s) (fst x) (fst (snd x)))
       (filter (\<lambda>x. fst (snd x) = h) (cells (answer_type_head_count s))))"
  "lookup0 (f1_per_head (summary_frame s)) h =
     sum_list (map (\<lambda>x. cell (answer_type_head_f1 s) (fst x) (fst (snd x)))
       (filter (\<lambda>x. fst (snd x) = h) (cells (answer_type_head_count s))))"
  "lookup0 (p_per_head (summary_frame s)) h =
     sum_list (map (\<lambda>x. cell (answer_type_head_p s) (fst x) (fst (snd x)))
       (filter (\<lambda>x. fst (snd x) = h) (cells (answer_type_head_count s))))"
  "lookup0 (r_per_head (summary_frame s)) h =
     sum_list (map (\<lambda>x. cell (answer_type_head_r s) (fst x) (fst (snd x)))
       (filter (\<lambda>x. fst (snd x) = h) (cells (answer_type_head_count s))))"
  by (simp_all add: summary_frame_def fold_outer_step_dicts frame0_def split_def
        lookup0_fold_dd_iadd)

lemma count_per_head_summary:
  "map_of (count_per_head (summary_frame s)) h =
     (if h \<in> observed_heads s
      then Some (sum_list (map (\<lambda>x. snd (snd x))
             (filter (\<lambda>x. fst (snd x) = h) (cells (answer_type_head_count s)))))
      else None)"
  "distinct (map fst (count_per_head (summary_frame s)))"
proof -
  have eq: "count_per_head (summary_frame s) =
      fold (\<lambda>x. dd_iadd (fst (snd x)) (snd (snd x))) (cells (answer_type_head_count s)) []"
    by (simp add: summary_frame_def fold_outer_step_dicts frame0_def split_def)
  show "map_of (count_per_head (summary_frame s)) h =
     (if h \<in> observed_heads s
      then Some (sum_list (map (\<lambda>x. snd (snd x))
             (filter (\<lambda>x. fst (snd x) = h) (cells (answer_type_head_count s)))))
      else None)"
    unfolding eq map_of_fold_dd_iadd observed_heads_def by (simp add: lookup0_def)
  show "distinct (map fst (count_per_head (summary_frame s)))"
    unfolding eq by (rule distinct_fold_dd_iadd) simp
qed

lemma head_view_conv:
  "head_view s h =
     (let cs = filter (\<lambda>x. fst (snd x) = h) (cells (answer_type_head_count s));
          n = sum_list (map (\<lambda>x. snd (snd x)) cs)
      in [sum_list (map (\<lambda>x. cell (answer_type_head_em s) (fst x) (fst (snd x))) cs) / of_int n,
          sum_list (map (\<lambda>x. cell (answer_type_head_f1 s) (fst x) (fst (snd x))) cs) / of_int n,
          sum_list (map (\<lambda>x. cell (answer_type_head_p s) (fst x) (fst (snd x))) cs) / of_int n,
          sum_list (map (\<lambda>x. cell (answer_type_head_r s) (fst x) (fst (snd x))) cs) / of_int n,
          of_int n])"
  by (simp add: head_view_def split_def)

lemma sph_summary:
  "map_of (fold (head_step (summary_frame s)) (count_per_head (summary_frame s)) []) h =
     (if h \<in> observed_heads s then Some (head_view s h) else None)"
  "distinct (map fst (fold (head_step (summary_frame s)) (count_per_head (summary_frame s)) []))"
proof -
  let ?fr = "summary_frame s"
  let ?g = "\<lambda>hc. [lookup0 (em_per_head ?fr) (fst hc) / of_int (snd hc),
        lookup0 (f1_per_head ?fr) (fst hc) / of_int (snd hc),
        lookup0 (p_per_head ?fr) (fst hc) / of_int (snd hc),
        lookup0 (r_per_head ?fr) (fst hc) / of_int (snd hc),
        of_int (snd hc)]"
  have eq: "head_step ?fr = (\<lambda>hc. AList.update (fst hc) (?g hc))"
    by (simp add: fun_eq_iff head_step_def)
  have d: "distinct (map fst (count_per_head ?fr))" by (rule count_per_head_summary)
  show "map_of (fold (head_step ?fr) (count_per_head ?fr) []) h =
     (if h \<in> observed_heads s then Some (head_view s h) else None)"
    unfolding eq map_of_fold_update [OF d] count_per_head_summary(1)
    by (simp add: per_head_sums head_view_conv Let_def)
  show "distinct (map fst (fold (head_step ?fr) (count_per_head ?fr) []))"
    unfolding eq by (rule distinct_fold_update) simp
qed

text \<open>
  C6. On a state that satisfies the invariant, \<^verbatim>\<open>get_metric\<close> returns, for each
  answer type of the count dictionary and no other key, the sums of its cells over its
  heads divided by the total count of the type, with that count; for each head of the
  count dictionary and no other key, the sums of its cells over the types divided by
  the total count of the head, with that count; and for each cell of the count
  dictionary and no other pair of keys, the values of the cell divided by its count,
  with that count.
\<close>

theorem breakdown_views:
  assumes "inv s"
  shows "\<exists>ov spath spat sph.
     fst (get_metric s reset_flag) = Inr (ov, spath, spat, sph) \<and>
     wf2 spath \<and> distinct (map fst spat) \<and> distinct (map fst sph) \<and>
     (\<forall>t. map_of spat t = map_option (type_view s t) (map_of (answer_type_head_count s) t)) \<and>
     (\<forall>h. map_of sph h = (if h \<in> observed_heads s then Some (head_view s h) else None)) \<and>
     (\<forall>t h. lookup2 spath t h =
        map_option (cell_view s t h) (lookup2 (answer_type_head_count s) t h))"
proof -
  have w: "wf2 (answer_type_head_count s)" using assms by (simp add: inv_def)
  have "fst (get_metric s reset_flag) = Inr (views_of s)"
    using assms by (simp add: get_metric_inv)
  then show ?thesis
    unfolding views_of_def
    using spath_summary [OF w] spat_summary [OF w] sph_summary [of s]
    by blast
qed


lemma inv_example_state: "inv example_state"
  using inv_run [of Inr score_half example_ops] by (simp add: example_run)

theorem breakdown_views_witness:
  "type_view example_state ''number'' [(''count_head'', 1)] = [1, 1, 1, 1, 1] \<and>
   head_view example_state ''span_head'' = [0, 1/2, 1/2, 1/2, 1] \<and>
   cell_view example_state ''span'' ''span_head'' 1 = [0, 1/2, 1/2, 1/2, 1]"
proof -
  from breakdown_views [OF inv_example_state, of False]
  obtain ov spath spat sph where
    g: "fst (get_metric example_state False) = Inr (ov, spath, spat, sph)" and
    a: "\<forall>t. map_of spat t =
          map_option (type_view example_state t) (map_of (answer_type_head_count example_state) t)" and
    b: "\<forall>h. map_of sph h =
          (if h \<in> observed_heads example_state then Some (head_view example_state h) else None)" and
    c: "\<forall>t h. lookup2 spath t h =
          map_option (cell_view example_state t h) (lookup2 (answer_type_head_count example_state) t h)"
    by blast
  from g have v: "spath = [(''number'', [(''count_head'', [1, 1, 1, 1, 1])]),
           (''span'', [(''span_head'', [0, 1/2, 1/2, 1/2, 1])])]"
    "spat = [(''number'', [1, 1, 1, 1, 1]), (''span'', [0, 1/2, 1/2, 1/2, 1])]"
    "sph = [(''count_head'', [1, 1, 1, 1, 1]), (''span_head'', [0, 1/2, 1/2, 1/2, 1])]"
    by (simp_all add: example_get_metric)
  have m: "map_of (answer_type_head_count example_state) ''number'' = Some [(''count_head'', 1)]"
    by (simp add: example_state_def)
  have h: "''span_head'' \<in> observed_heads example_state"
    by (simp add: observed_heads_def example_state_def cells_def)
  have l: "lookup2 (answer_type_head_count example_state) ''span'' ''span_head'' = Some 1"
    by (simp add: lookup2_def example_state_def)
  from a [rule_format, of "''number''"] have "type_view example_state ''number'' [(''count_head'', 1)] = [1, 1, 1, 1, 1]"
    by (simp add: m v)
  moreover from b [rule_format, of "''span_head''"] have "head_view example_state ''span_head'' = [0, 1/2, 1/2, 1/2, 1]"
    by (simp add: h v)
  moreover have "lookup2 spath ''span'' ''span_head'' = Some [0, 1/2, 1/2, 1/2, 1]"
    by (simp add: v lookup2_def)
  with c [rule_format, of "''span''" "''span_head''"]
  have "cell_view example_state ''span'' ''span_head'' 1 = [0, 1/2, 1/2, 1/2, 1]"
    by (simp add: l)
  ultimately show ?thesis by simp
qed

section \<open>Merging two accumulators\<close>











































end
